theory Spec2Isabelle
  imports Main "HOL-Library.AList"
begin

text \<open>
  The long-polling server of the repository: the map from client identifiers to
  one-slot mailboxes, the handlers that subscribe, poll and publish, and the sweep that
  removes inactive clients. The functions modelled are \<^verbatim>\<open>subscribeHandler\<close>, \<^verbatim>\<open>pollHandler\<close>,
  \<^verbatim>\<open>publishHandler\<close> and \<^verbatim>\<open>cleanUpInactiveClients\<close> of the server listed in
  \<^verbatim>\<open>.github/copilot-instructions.md\<close> (package main, with the global \<^verbatim>\<open>clientChannels\<close>);
  \<^verbatim>\<open>main.go\<close> routes \<^verbatim>\<open>/poll\<close> and \<^verbatim>\<open>/publish\<close> to the handlers of the same names.
\<close>

section \<open>Data model\<close>

text \<open>
  Instants and durations are counted in nanoseconds, as Go's \<^verbatim>\<open>time.Duration\<close> does.
  Every \<^verbatim>\<open>time.Now()\<close> of the source is a parameter of the operation that reads it.
\<close>

type_synonym instant = int

definition second :: int where
  "second = 1000000000"

definition minute :: int where
  "minute = 60 * second"

text \<open>\<^verbatim>\<open>clientTimeout = 1 * time.Minute\<close>, and the \<^verbatim>\<open>30 * time.Second\<close> of \<^verbatim>\<open>pollHandler\<close>.\<close>

definition clientTimeout :: int where
  "clientTimeout = 1 * minute"

definition pollTimeout :: int where
  "pollTimeout = 30 * second"

text \<open>\<^verbatim>\<open>type Event struct { Message string; Time time.Time }\<close>\<close>

record Event =
  Message :: string
  Time :: instant

text \<open>The zero value of \<^verbatim>\<open>Event\<close>: what a receive from a closed, drained channel yields.\<close>

definition zeroEvent :: Event where
  "zeroEvent = \<lparr>Message = [], Time = 0\<rparr>"

text \<open>
  A Go channel of events: the buffered elements in arrival order, the capacity given to
  \<^verbatim>\<open>make\<close>, and whether \<^verbatim>\<open>close\<close> has been called.
\<close>

record chan =
  qbuf :: "Event list"
  qsize :: nat
  qclosed :: bool

definition make_chan :: "nat \<Rightarrow> chan" where
  "make_chan n = \<lparr>qbuf = [], qsize = n, qclosed = False\<rparr>"

text \<open>
  \<^verbatim>\<open>type ClientState struct { Channel chan Event; LastSeen time.Time }\<close>. The channel is a
  reference: the field holds the address of the channel in the channel heap.
\<close>

record ClientState =
  Channel :: nat
  LastSeen :: instant

text \<open>
  The process state: the heap of channels, the heap of \<^verbatim>\<open>ClientState\<close> objects (the map
  holds pointers to them, and a poll keeps its pointer while it waits), each with its
  allocation counter, and the global map \<^verbatim>\<open>clientChannels\<close> as an association list with
  one pair for each key.
\<close>

record state =
  chans :: "nat \<Rightarrow> chan"
  nchans :: nat
  clients :: "nat \<Rightarrow> ClientState"
  nclients :: nat
  clientChannels :: "(string \<times> nat) list"

definition init :: state where
  "init = \<lparr>chans = (\<lambda>_. make_chan 0), nchans = 0,
           clients = (\<lambda>_. \<lparr>Channel = 0, LastSeen = 0\<rparr>), nclients = 0,
           clientChannels = []\<rparr>"

section \<open>Channel operations\<close>

datatype panic = SendOnClosedChannel | CloseOfClosedChannel

text \<open>
  \<^verbatim>\<open>select { case ch <- e: ... default: ... }\<close>: a send that never blocks. It panics on a
  closed channel, puts the element in the buffer when there is room (\<open>True\<close>), and
  takes the default branch otherwise (\<open>False\<close>). Every channel of the server has
  capacity 1, so a receiver can only be waiting while the buffer is empty: the send then
  succeeds, and the hand-over to the waiting receiver is its receive from the buffer.
\<close>

definition trySend :: "Event \<Rightarrow> chan \<Rightarrow> panic + (bool \<times> chan)" where
  "trySend e c =
     (if qclosed c then Inl SendOnClosedChannel
      else if length (qbuf c) < qsize c then Inr (True, c\<lparr>qbuf := qbuf c @ [e]\<rparr>)
      else Inr (False, c))"

text \<open>
  The receive case of a \<^verbatim>\<open>select\<close>: ready with the oldest buffered element, or, on a
  closed and drained channel, ready with the zero value; \<open>None\<close> when the receive
  would block.
\<close>

definition recvReady :: "chan \<Rightarrow> (Event \<times> chan) option" where
  "recvReady c =
     (case qbuf c of
        e # es \<Rightarrow> Some (e, c\<lparr>qbuf := es\<rparr>)
      | [] \<Rightarrow> if qclosed c then Some (zeroEvent, c) else None)"

text \<open>\<^verbatim>\<open>close(ch)\<close> panics on a channel that is closed already.\<close>

definition closeChan :: "chan \<Rightarrow> panic + chan" where
  "closeChan c = (if qclosed c then Inl CloseOfClosedChannel else Inr (c\<lparr>qclosed := True\<rparr>))"

section \<open>Handlers\<close>

datatype Response =
    StatusOK_Event Event
  | StatusOK_Published
  | StatusOK_Subscribed string
  | StatusNoContent
  | StatusBadRequest
  | StatusNotFound
  | StatusServiceUnavailable

fun statusCode :: "Response \<Rightarrow> nat" where
  "statusCode (StatusOK_Event _) = 200"
| "statusCode StatusOK_Published = 200"
| "statusCode (StatusOK_Subscribed _) = 200"
| "statusCode StatusNoContent = 204"
| "statusCode StatusBadRequest = 400"
| "statusCode StatusNotFound = 404"
| "statusCode StatusServiceUnavailable = 503"

text \<open>
  The allocation shared by \<^verbatim>\<open>subscribeHandler\<close> and the first-time branch of
  \<^verbatim>\<open>pollHandler\<close>: \<^verbatim>\<open>make(chan Event, 1)\<close>, a new \<^verbatim>\<open>ClientState\<close> holding it with
  \<^verbatim>\<open>LastSeen: time.Now()\<close>, and \<^verbatim>\<open>clientChannels[clientId] = \<close> the pointer to it.
\<close>

definition register :: "string \<Rightarrow> instant \<Rightarrow> state \<Rightarrow> nat \<times> state" where
  "register clientId now s =
     (let a = nchans s; p = nclients s
      in (p, s\<lparr>chans := (chans s)(a := make_chan 1), nchans := Suc a,
                clients := (clients s)(p := \<lparr>Channel = a, LastSeen = now\<rparr>),
                nclients := Suc p,
                clientChannels := AList.update clientId p (clientChannels s)\<rparr>))"

text \<open>\<^verbatim>\<open>subscribeHandler\<close>: the assignment to the map is unconditional.\<close>

definition subscribeHandler :: "string \<Rightarrow> instant \<Rightarrow> state \<Rightarrow> Response \<times> state" where
  "subscribeHandler clientId now s =
     (StatusOK_Subscribed clientId, snd (register clientId now s))"

text \<open>
  \<^verbatim>\<open>pollHandler\<close>, the section under \<^verbatim>\<open>mu.Lock()\<close>: look the client up, create it when it is
  absent, refresh \<^verbatim>\<open>LastSeen\<close> when it is present. The result is the pointer \<^verbatim>\<open>client\<close> the
  handler keeps for its wait.
\<close>

definition pollEnter :: "string \<Rightarrow> instant \<Rightarrow> state \<Rightarrow> nat \<times> state" where
  "pollEnter clientId now s =
     (case map_of (clientChannels s) clientId of
        None \<Rightarrow> register clientId now s
      | Some p \<Rightarrow> (p, s\<lparr>clients := (clients s)(p := (clients s p)\<lparr>LastSeen := now\<rparr>)\<rparr>))"

text \<open>
  \<^verbatim>\<open>pollHandler\<close>, the \<^verbatim>\<open>select\<close>: \<open>timer\<close> is the instant at which
  \<^verbatim>\<open>time.After(30 * time.Second)\<close> was called and \<open>now\<close> the instant at which the
  \<^verbatim>\<open>select\<close> is resolved. The result lists the cases that are ready, each with the
  response and the state it leaves; Go picks any one of them, and the empty list means
  that the handler stays blocked at \<open>now\<close>.
\<close>

definition pollSelect :: "nat \<Rightarrow> instant \<Rightarrow> instant \<Rightarrow> state \<Rightarrow> (Response \<times> state) list" where
  "pollSelect p timer now s =
     (let a = Channel (clients s p)
      in (case recvReady (chans s a) of
            Some (event, c') \<Rightarrow> [(StatusOK_Event event, s\<lparr>chans := (chans s)(a := c')\<rparr>)]
          | None \<Rightarrow> [])
         @ (if now - timer \<ge> pollTimeout then [(StatusNoContent, s)] else []))"

text \<open>A poll that nothing interleaves with: the locked section, then the \<^verbatim>\<open>select\<close>.\<close>

definition poll :: "string \<Rightarrow> instant \<Rightarrow> instant \<Rightarrow> instant \<Rightarrow> state \<Rightarrow> (Response \<times> state) list" where
  "poll clientId entered timer now s =
     (let (p, s1) = pollEnter clientId entered s in pollSelect p timer now s1)"

definition pollHandler :: "string \<Rightarrow> instant \<Rightarrow> instant \<Rightarrow> instant \<Rightarrow> state \<Rightarrow> (Response \<times> state) list" where
  "pollHandler clientId entered timer now s =
     (if clientId = [] then [(StatusBadRequest, s)] else poll clientId entered timer now s)"

text \<open>
  \<^verbatim>\<open>publishHandler\<close> after the lookup: the non-blocking send of the event stamped with
  \<^verbatim>\<open>time.Now()\<close> on the channel of the \<^verbatim>\<open>ClientState\<close> that \<open>p\<close> points to. A handler
  that panics has written no response (\<open>Inl\<close>); the state is the one the panic left.
\<close>

definition publishSend :: "nat \<Rightarrow> string \<Rightarrow> instant \<Rightarrow> state \<Rightarrow> (panic + Response) \<times> state" where
  "publishSend p message now s =
     (let a = Channel (clients s p)
      in case trySend \<lparr>Message = message, Time = now\<rparr> (chans s a) of
           Inl e \<Rightarrow> (Inl e, s)
         | Inr (True, c') \<Rightarrow> (Inr StatusOK_Published, s\<lparr>chans := (chans s)(a := c')\<rparr>)
         | Inr (False, _) \<Rightarrow> (Inr StatusServiceUnavailable, s))"

text \<open>\<^verbatim>\<open>publishHandler\<close> from the lookup under \<^verbatim>\<open>mu.RLock()\<close> on.\<close>

definition publish :: "string \<Rightarrow> string \<Rightarrow> instant \<Rightarrow> state \<Rightarrow> (panic + Response) \<times> state" where
  "publish clientId message now s =
     (case map_of (clientChannels s) clientId of
        None \<Rightarrow> (Inr StatusNotFound, s)
      | Some p \<Rightarrow> publishSend p message now s)"

text \<open>
  The whole handler: \<open>body\<close> is the message field of the request, \<open>None\<close> when
  \<^verbatim>\<open>BindJSON\<close> fails (malformed JSON, or the required field missing or empty).
\<close>

definition publishHandler :: "string \<Rightarrow> string option \<Rightarrow> instant \<Rightarrow> state \<Rightarrow> (panic + Response) \<times> state" where
  "publishHandler clientId body now s =
     (if clientId = [] then (Inr StatusBadRequest, s)
      else case body of
             None \<Rightarrow> (Inr StatusBadRequest, s)
           | Some message \<Rightarrow>
               if message = [] then (Inr StatusBadRequest, s)
               else publish clientId message now s)"

section \<open>The sweep of inactive clients\<close>

datatype LogLine = CleanedUp string | ActiveRemaining nat

text \<open>
  One pass of the loop of \<^verbatim>\<open>cleanUpInactiveClients\<close> under \<^verbatim>\<open>mu.Lock()\<close> (the function
  itself sleeps a minute before each pass and never returns). The \<^verbatim>\<open>range\<close>
  visits every pair of the map once (only the pair being visited is deleted), in an
  order the language leaves open and that may differ from pass to pass: the loop takes
  the pairs in the order \<open>visit\<close> of this pass. \<^verbatim>\<open>time.Since\<close> reads the clock again at
  each pair: \<open>clock clientId\<close> is the reading for that pair. The function returns
  nothing; what it reports are its two log lines for each client it removes.
\<close>

fun sweepLoop :: "(string \<Rightarrow> instant) \<Rightarrow> (string \<times> nat) list \<Rightarrow> LogLine list \<times> state
    \<Rightarrow> panic + (LogLine list \<times> state)" where
  "sweepLoop clock [] ls = Inr ls"
| "sweepLoop clock ((clientId, p) # rest) (lg, s) =
     (if clock clientId - LastSeen (clients s p) > clientTimeout then
        (let s1 = s\<lparr>clientChannels := AList.delete clientId (clientChannels s)\<rparr>;
             lg1 = lg @ [CleanedUp clientId, ActiveRemaining (length (clientChannels s1))];
             a = Channel (clients s p)
         in case closeChan (chans s1 a) of
              Inl e \<Rightarrow> Inl e
            | Inr c' \<Rightarrow> sweepLoop clock rest (lg1, s1\<lparr>chans := (chans s1)(a := c')\<rparr>))
      else sweepLoop clock rest (lg, s))"

text \<open>An order in which a \<^verbatim>\<open>range\<close> can visit the map: every pair, each key once.\<close>

definition visitOrder :: "(string \<times> nat) list \<Rightarrow> state \<Rightarrow> bool" where
  "visitOrder visit s \<longleftrightarrow> distinct (map fst visit) \<and> set visit = set (clientChannels s)"

definition cleanUpSweep :: "(string \<Rightarrow> instant) \<Rightarrow> (string \<times> nat) list \<Rightarrow> state
    \<Rightarrow> panic + (LogLine list \<times> state)" where
  "cleanUpSweep clock visit s = sweepLoop clock visit ([], s)"


text \<open>A clock that shows the same instant at every pair of the map.\<close>

definition constClock :: "instant \<Rightarrow> string \<Rightarrow> instant" where
  "constClock t clientId = t"

text \<open>The test of the sweep: \<^verbatim>\<open>time.Since(clientState.LastSeen) > clientTimeout\<close>.\<close>

definition idle :: "(string \<Rightarrow> instant) \<Rightarrow> state \<Rightarrow> string \<times> nat \<Rightarrow> bool" where
  "idle clock s e \<longleftrightarrow> clock (fst e) - LastSeen (clients s (snd e)) > clientTimeout"

text \<open>
  What a sweep writes to the log when it removes the clients \<open>cs\<close>, in this order, from
  a map of \<open>n\<close> pairs: the identifier removed and \<^verbatim>\<open>len(clientChannels)\<close> after the removal.
\<close>

fun reportLines :: "nat \<Rightarrow> string list \<Rightarrow> LogLine list" where
  "reportLines n [] = []"
| "reportLines n (c # cs) = [CleanedUp c, ActiveRemaining (n - 1)] @ reportLines (n - 1) cs"

section \<open>Interleavings\<close>

text \<open>The mailbox a pointer leads to.\<close>

abbreviation mailbox :: "state \<Rightarrow> nat \<Rightarrow> chan" where
  "mailbox s p \<equiv> chans s (Channel (clients s p))"

text \<open>The responses a \<^verbatim>\<open>select\<close>, or a whole poll, can give.\<close>

definition selectResponses :: "nat \<Rightarrow> instant \<Rightarrow> instant \<Rightarrow> state \<Rightarrow> Response list" where
  "selectResponses p timer now s = map fst (pollSelect p timer now s)"

definition pollResponses :: "string \<Rightarrow> instant \<Rightarrow> instant \<Rightarrow> instant \<Rightarrow> state \<Rightarrow> Response list" where
  "pollResponses clientId entered timer now s = map fst (poll clientId entered timer now s)"

text \<open>
  The state after a waiting handler that holds the pointer \<open>p\<close> has taken the receive case
  of its \<^verbatim>\<open>select\<close>; the state as it is when that case is not ready.
\<close>

definition pollReceive :: "nat \<Rightarrow> state \<Rightarrow> state" where
  "pollReceive p s =
     (let a = Channel (clients s p)
      in case recvReady (chans s a) of
           Some (event, c') \<Rightarrow> s\<lparr>chans := (chans s)(a := c')\<rparr>
         | None \<Rightarrow> s)"

text \<open>
  The transitions of the shared state: the handlers, each from its lookup to its end, the
  two halves of a poll, and one pass of the sweeper. The timeout case of a \<^verbatim>\<open>select\<close>
  changes nothing and is no transition. A panic of the sweeper goroutine ends the process
  (\<open>None\<close>); a panic inside a handler is recovered by the router and the state lives on.
  The state a pass of the sweeper leaves does not depend on the order of its visit (lemma
  \<open>sweep_order_free\<close>; only its log does), so the transition takes the pairs as the list
  has them.
\<close>

datatype action =
    Subscribe string instant
  | PollEnter string instant
  | PollReceive nat
  | Publish string string instant
  | Sweep "string \<Rightarrow> instant"

fun step :: "action \<Rightarrow> state \<Rightarrow> state option" where
  "step (Subscribe clientId now) s = Some (snd (subscribeHandler clientId now s))"
| "step (PollEnter clientId now) s = Some (snd (pollEnter clientId now s))"
| "step (PollReceive p) s = Some (pollReceive p s)"
| "step (Publish clientId message now) s = Some (snd (publish clientId message now s))"
| "step (Sweep clock) s =
     (case cleanUpSweep clock (clientChannels s) s of
        Inl e \<Rightarrow> None
      | Inr (lg, s') \<Rightarrow> Some s')"

fun run :: "action list \<Rightarrow> state \<Rightarrow> state option" where
  "run [] s = Some s"
| "run (a # as) s = (case step a s of None \<Rightarrow> None | Some s' \<Rightarrow> run as s')"

text \<open>
  The invariant of the map: one pair for each key, no channel shared by two pairs, and
  every pair leads to an allocated \<^verbatim>\<open>ClientState\<close> whose channel is allocated, open, of
  capacity 1 and holds at most one event.
\<close>

definition wf :: "state \<Rightarrow> bool" where
  "wf s \<longleftrightarrow>
     distinct (map fst (clientChannels s))
   \<and> distinct (map (\<lambda>e. Channel (clients s (snd e))) (clientChannels s))
   \<and> (\<forall>e \<in> set (clientChannels s).
         snd e < nclients s
       \<and> Channel (clients s (snd e)) < nchans s
       \<and> \<not> qclosed (mailbox s (snd e))
       \<and> qsize (mailbox s (snd e)) = 1
       \<and> length (qbuf (mailbox s (snd e))) \<le> 1)"

section \<open>Scenarios\<close>

text \<open>
  States reached from the empty map, used where a statement is checked on a concrete run:
  client A polls at instant 0 and no event arrives within its 30 seconds; an event is
  published to A at 35 s (\<open>onePending\<close>) or at 59 s (\<open>latePending\<close>); clients B and C
  have polled at 40 s and 50 s (\<open>threeClients\<close>); what a sweep at 61 s, and one at 101 s,
  leaves of the three clients; what a sweep at 61 s leaves of A with its late event, and of A alone while a handler still holds its
  entry; and A subscribed again at 1 s while its first poll waits (\<open>replaced\<close>).
\<close>

definition oneClient :: state where
  "oneClient = snd (pollEnter ''A'' 0 init)"


definition threeClients :: state where
  "threeClients =
     snd (pollEnter ''C'' (50 * second) (snd (pollEnter ''B'' (40 * second) oneClient)))"

definition sweptThree :: state where
  "sweptThree = threeClients\<lparr>clientChannels := [(''B'', 1), (''C'', 2)],
      chans := (chans threeClients)(0 := (make_chan 1)\<lparr>qclosed := True\<rparr>)\<rparr>"


definition latePending :: state where
  "latePending = snd (publish ''A'' ''hi'' (59 * second) oneClient)"

definition evictedPending :: state where
  "evictedPending = latePending\<lparr>clientChannels := [],
      chans := (chans latePending)(0 := (mailbox latePending 0)\<lparr>qclosed := True\<rparr>)\<rparr>"

definition evictedWaiting :: state where
  "evictedWaiting = oneClient\<lparr>clientChannels := [],
      chans := (chans oneClient)(0 := (make_chan 1)\<lparr>qclosed := True\<rparr>)\<rparr>"

definition replaced :: state where
  "replaced = snd (subscribeHandler ''A'' (1 * second) oneClient)"

section \<open>The invariant\<close>

lemma wf_init: "wf init"
  by (simp add: wf_def init_def)

lemma set_update_subset:
  "set (AList.update k v al) \<subseteq> insert (k, v) (set al)"
  by (induction al) auto

lemma update_distinct_image:
  assumes "distinct (map f al)" and "f (k, v) \<notin> f ` set al"
  shows "distinct (map f (AList.update k v al))"
  using assms
proof (induction al)
  case Nil
  then show ?case by simp
next
  case (Cons e al)
  obtain k' v' where e: "e = (k', v')" by (cases e)
  have sub: "set (AList.update k v al) \<subseteq> insert (k, v) (set al)"
    by (rule set_update_subset)
  show ?case
  proof (cases "k' = k")
    case True
    with Cons.prems e show ?thesis by auto
  next
    case False
    with Cons e sub show ?thesis by (auto simp: image_iff) 
  qed
qed

lemma wf_register:
  assumes "wf s"
  shows "wf (snd (register clientId now s))"
proof -
  let ?s' = "snd (register clientId now s)"
  let ?p = "nclients s"
  let ?f = "\<lambda>e. Channel (clients s (snd e))"
  let ?f' = "\<lambda>e. Channel (clients ?s' (snd e))"
  have cc: "clientChannels ?s' = AList.update clientId ?p (clientChannels s)"
    by (simp add: register_def Let_def)
  have sub: "set (clientChannels ?s') \<subseteq> insert (clientId, ?p) (set (clientChannels s))"
    unfolding cc by (rule set_update_subset)
  have old: "\<And>e. e \<in> set (clientChannels s) \<Longrightarrow> snd e < ?p \<and> ?f e < nchans s"
    using assms by (simp add: wf_def)
  have new: "?f' (clientId, ?p) = nchans s"
    by (simp add: register_def Let_def)
  have same: "\<And>e. e \<in> set (clientChannels s) \<Longrightarrow> ?f' e = ?f e"
  proof -
    fix e assume "e \<in> set (clientChannels s)"
    with old have "snd e \<noteq> ?p" by fastforce
    then show "?f' e = ?f e" by (simp add: register_def Let_def)
  qed
  have d1: "distinct (map fst (clientChannels ?s'))"
    unfolding cc using assms by (simp add: wf_def distinct_update)
  have "distinct (map ?f' (clientChannels s))"
    using assms same by (simp add: wf_def cong: map_cong)
  moreover have "?f' (clientId, ?p) \<notin> ?f' ` set (clientChannels s)"
    using old same new by force
  ultimately have d2: "distinct (map ?f' (clientChannels ?s'))"
    unfolding cc by (rule update_distinct_image)
  have d3: "\<forall>e \<in> set (clientChannels ?s').
         snd e < nclients ?s' \<and> Channel (clients ?s' (snd e)) < nchans ?s'
       \<and> \<not> qclosed (mailbox ?s' (snd e)) \<and> qsize (mailbox ?s' (snd e)) = 1
       \<and> length (qbuf (mailbox ?s' (snd e))) \<le> 1"
  proof
    fix e assume "e \<in> set (clientChannels ?s')"
    with sub have "e = (clientId, ?p) \<or> e \<in> set (clientChannels s)" by auto
    then show "snd e < nclients ?s' \<and> Channel (clients ?s' (snd e)) < nchans ?s'
       \<and> \<not> qclosed (mailbox ?s' (snd e)) \<and> qsize (mailbox ?s' (snd e)) = 1
       \<and> length (qbuf (mailbox ?s' (snd e))) \<le> 1"
    proof
      assume "e = (clientId, ?p)"
      then show ?thesis by (simp add: register_def Let_def make_chan_def)
    next
      assume mem: "e \<in> set (clientChannels s)"
      with assms have "snd e < ?p" "?f e < nchans s" "\<not> qclosed (mailbox s (snd e))"
         "qsize (mailbox s (snd e)) = 1" "length (qbuf (mailbox s (snd e))) \<le> 1"
        by (simp_all add: wf_def)
      then show ?thesis by (simp add: register_def Let_def)
    qed
  qed
  from d1 d2 d3 show ?thesis unfolding wf_def by blast
qed


section \<open>The sweep, pair by pair\<close>

lemma idle_clients_cong: "clients s' = clients s \<Longrightarrow> idle clock s' = idle clock s"
  by (rule ext) (simp add: idle_def)

lemma sweepLoop_shape:
  assumes "distinct (map (\<lambda>e. Channel (clients s (snd e))) es)"
    and "\<forall>e \<in> set es. \<not> qclosed (mailbox s (snd e))"
  shows "\<exists>lg' s'. sweepLoop clock es (lg, s) = Inr (lg', s')
       \<and> clients s' = clients s \<and> nclients s' = nclients s \<and> nchans s' = nchans s
       \<and> clientChannels s' =
           filter (\<lambda>e. fst e \<notin> fst ` {x \<in> set es. idle clock s x}) (clientChannels s)
       \<and> (\<forall>a. chans s' a =
              (if a \<in> (\<lambda>e. Channel (clients s (snd e))) ` {x \<in> set es. idle clock s x}
               then (chans s a)\<lparr>qclosed := True\<rparr> else chans s a))"
  using assms
proof (induction es arbitrary: lg s)
  case Nil
  then show ?case by simp
next
  case (Cons e es)
  obtain c p where e: "e = (c, p)" by (cases e)
  let ?a = "Channel (clients s p)"
  show ?case
  proof (cases "idle clock s e")
    case False
    then have step: "sweepLoop clock (e # es) (lg, s) = sweepLoop clock es (lg, s)"
      by (simp add: e idle_def)
    have sets: "{x \<in> set (e # es). idle clock s x} = {x \<in> set es. idle clock s x}"
      using False by auto
    from Cons.prems have "distinct (map (\<lambda>e. Channel (clients s (snd e))) es)"
      "\<forall>e \<in> set es. \<not> qclosed (mailbox s (snd e))" by simp_all
    from Cons.IH [OF this, of lg] show ?thesis unfolding step sets .
  next
    case True
    let ?s2 = "s\<lparr>clientChannels := AList.delete c (clientChannels s),
                 chans := (chans s)(?a := (chans s ?a)\<lparr>qclosed := True\<rparr>)\<rparr>"
    let ?lg2 = "lg @ [CleanedUp c, ActiveRemaining (length (AList.delete c (clientChannels s)))]"
    have "\<not> qclosed (chans s ?a)" using Cons.prems(2) e by simp
    with True have step: "sweepLoop clock (e # es) (lg, s) = sweepLoop clock es (?lg2, ?s2)"
      by (simp add: e idle_def closeChan_def Let_def)
    have other: "\<And>x. x \<in> set es \<Longrightarrow> Channel (clients s (snd x)) \<noteq> ?a"
      using Cons.prems(1) e by force
    have d: "distinct (map (\<lambda>e. Channel (clients ?s2 (snd e))) es)"
      using Cons.prems(1) by simp
    have o: "\<forall>e \<in> set es. \<not> qclosed (mailbox ?s2 (snd e))"
      using Cons.prems(2) other by simp
    have idl: "idle clock ?s2 = idle clock s"
      by (rule idle_clients_cong) simp
    have sets: "{x \<in> set (e # es). idle clock s x} = insert e {x \<in> set es. idle clock s x}"
      using True by auto
    from Cons.IH [OF d o, of ?lg2] obtain lg' s' where
      r: "sweepLoop clock es (?lg2, ?s2) = Inr (lg', s')"
      and c: "clients s' = clients s" "nclients s' = nclients s" "nchans s' = nchans s"
      and m: "clientChannels s' =
           filter (\<lambda>e. fst e \<notin> fst ` {x \<in> set es. idle clock s x}) (AList.delete c (clientChannels s))"
      and h: "\<forall>a. chans s' a =
              (if a \<in> (\<lambda>e. Channel (clients s (snd e))) ` {x \<in> set es. idle clock s x}
               then (chans ?s2 a)\<lparr>qclosed := True\<rparr> else chans ?s2 a)"
      unfolding idl by auto
    have m': "clientChannels s' =
           filter (\<lambda>x. fst x \<notin> fst ` {x \<in> set (e # es). idle clock s x}) (clientChannels s)"
      unfolding m sets by (auto simp: AList.delete_eq e intro: filter_cong)
    have h': "\<forall>a. chans s' a =
              (if a \<in> (\<lambda>e. Channel (clients s (snd e))) ` {x \<in> set (e # es). idle clock s x}
               then (chans s a)\<lparr>qclosed := True\<rparr> else chans s a)"
      unfolding sets using h by (simp add: e)
    from r c m' h' show ?thesis unfolding step by blast
  qed
qed

lemma length_delete_present:
  assumes "distinct (map fst al)" and "k \<in> fst ` set al"
  shows "length (AList.delete k al) = length al - 1"
  using assms
proof (induction al)
  case Nil
  then show ?case by simp
next
  case (Cons e al)
  show ?case
  proof (cases "fst e = k")
    case True
    with Cons.prems(1) have "k \<notin> fst ` set al" by auto
    with True show ?thesis by (cases e) simp
  next
    case False
    with Cons.prems have "k \<in> fst ` set al" "distinct (map fst al)" by auto
    with Cons.IH have "length (AList.delete k al) = length al - 1" by simp
    moreover from \<open>k \<in> fst ` set al\<close> have "al \<noteq> []" by auto
    ultimately show ?thesis using False by (cases e) (simp add: Suc_pred)
  qed
qed

lemma sweepLoop_log:
  assumes "sweepLoop clock es (lg, s) = Inr (lg', s')"
    and "distinct (map fst es)" and "set es \<subseteq> set (clientChannels s)"
    and "distinct (map fst (clientChannels s))"
  shows "lg' = lg @ reportLines (length (clientChannels s)) (map fst (filter (idle clock s) es))"
  using assms
proof (induction es arbitrary: lg s)
  case Nil
  then show ?case by simp
next
  case (Cons e es)
  obtain c p where e: "e = (c, p)" by (cases e)
  let ?a = "Channel (clients s p)"
  show ?case
  proof (cases "idle clock s e")
    case False
    with Cons.prems(1) have "sweepLoop clock es (lg, s) = Inr (lg', s')"
      by (simp add: e idle_def)
    from Cons.IH [OF this] Cons.prems False show ?thesis by simp
  next
    case True
    let ?cc2 = "AList.delete c (clientChannels s)"
    let ?lg2 = "lg @ [CleanedUp c, ActiveRemaining (length ?cc2)]"
    from True Cons.prems(1) obtain c' where
      r: "sweepLoop clock es (?lg2, s\<lparr>clientChannels := ?cc2, chans := (chans s)(?a := c')\<rparr>) = Inr (lg', s')"
      by (auto simp: e idle_def Let_def split: sum.splits)
    let ?s2 = "s\<lparr>clientChannels := ?cc2, chans := (chans s)(?a := c')\<rparr>"
    have idl: "idle clock ?s2 = idle clock s"
      by (rule idle_clients_cong) simp
    have d: "distinct (map fst es)" using Cons.prems(2) by simp
    have "\<forall>x \<in> set es. fst x \<noteq> c" using Cons.prems(2) e by force
    then have sub: "set es \<subseteq> set (clientChannels ?s2)"
      using Cons.prems(3) by (fastforce simp: AList.delete_eq)
    have d2: "distinct (map fst (clientChannels ?s2))"
      using Cons.prems(4) by (simp add: distinct_delete)
    have len: "length ?cc2 = length (clientChannels s) - 1"
      using Cons.prems(3,4) e by (intro length_delete_present) force+
    from Cons.IH [OF r d sub d2] show ?thesis
      using True by (simp add: idl len e)
  qed
qed


section \<open>The invariant is kept\<close>

lemma wf_frame:
  assumes "wf s"
    and "clientChannels s' = clientChannels s"
    and "nclients s' = nclients s" and "nchans s' = nchans s"
    and "\<forall>p. Channel (clients s' p) = Channel (clients s p)"
    and "\<forall>a. qclosed (chans s' a) = qclosed (chans s a)
           \<and> qsize (chans s' a) = qsize (chans s a)
           \<and> length (qbuf (chans s' a)) \<le> max (length (qbuf (chans s a))) (qsize (chans s a))"
  shows "wf s'"
proof -
  have "\<forall>e \<in> set (clientChannels s').
         snd e < nclients s' \<and> Channel (clients s' (snd e)) < nchans s'
       \<and> \<not> qclosed (mailbox s' (snd e)) \<and> qsize (mailbox s' (snd e)) = 1
       \<and> length (qbuf (mailbox s' (snd e))) \<le> 1"
  proof
    fix e assume "e \<in> set (clientChannels s')"
    then have mem: "e \<in> set (clientChannels s)" using assms(2) by simp
    let ?a = "Channel (clients s (snd e))"
    from mem assms(1) have old: "snd e < nclients s" "?a < nchans s" "\<not> qclosed (chans s ?a)"
      "qsize (chans s ?a) = 1" "length (qbuf (chans s ?a)) \<le> 1"
      by (simp_all add: wf_def)
    from assms(6) have "qclosed (chans s' ?a) = qclosed (chans s ?a)"
      "qsize (chans s' ?a) = qsize (chans s ?a)"
      "length (qbuf (chans s' ?a)) \<le> max (length (qbuf (chans s ?a))) (qsize (chans s ?a))"
      by simp_all
    with old assms(3,4,5)
    show "snd e < nclients s' \<and> Channel (clients s' (snd e)) < nchans s'
       \<and> \<not> qclosed (mailbox s' (snd e)) \<and> qsize (mailbox s' (snd e)) = 1
       \<and> length (qbuf (mailbox s' (snd e))) \<le> 1"
      by simp
  qed
  moreover have "distinct (map fst (clientChannels s'))"
    using assms(1,2) by (simp add: wf_def)
  moreover have "distinct (map (\<lambda>e. Channel (clients s' (snd e))) (clientChannels s'))"
    using assms(1,2,5) by (simp add: wf_def)
  ultimately show ?thesis unfolding wf_def by blast
qed

lemma wf_pollEnter:
  assumes "wf s"
  shows "wf (snd (pollEnter clientId now s))"
proof (cases "map_of (clientChannels s) clientId")
  case None
  then show ?thesis using wf_register [OF assms] by (simp add: pollEnter_def)
next
  case (Some p)
  then have "snd (pollEnter clientId now s) =
      s\<lparr>clients := (clients s)(p := (clients s p)\<lparr>LastSeen := now\<rparr>)\<rparr>"
    by (simp add: pollEnter_def)
  then show ?thesis using assms by (intro wf_frame [OF assms]) simp_all
qed

lemma wf_subscribe:
  assumes "wf s"
  shows "wf (snd (subscribeHandler clientId now s))"
  using wf_register [OF assms] by (simp add: subscribeHandler_def)

lemma publishSend_frame:
  "clientChannels (snd (publishSend p message now s)) = clientChannels s
 \<and> clients (snd (publishSend p message now s)) = clients s
 \<and> nclients (snd (publishSend p message now s)) = nclients s
 \<and> nchans (snd (publishSend p message now s)) = nchans s"
  by (simp add: publishSend_def trySend_def Let_def)

lemma publishSend_chans:
  "qclosed (chans (snd (publishSend p message now s)) a) = qclosed (chans s a)
 \<and> qsize (chans (snd (publishSend p message now s)) a) = qsize (chans s a)
 \<and> length (qbuf (chans (snd (publishSend p message now s)) a))
      \<le> max (length (qbuf (chans s a))) (qsize (chans s a))"
  by (simp add: publishSend_def trySend_def Let_def)

lemma publish_frame:
  "clientChannels (snd (publish clientId message now s)) = clientChannels s
 \<and> clients (snd (publish clientId message now s)) = clients s
 \<and> nclients (snd (publish clientId message now s)) = nclients s
 \<and> nchans (snd (publish clientId message now s)) = nchans s"
  using publishSend_frame by (simp add: publish_def split: option.splits)

lemma wf_publish:
  assumes "wf s"
  shows "wf (snd (publish clientId message now s))"
proof (cases "map_of (clientChannels s) clientId")
  case None
  then show ?thesis using assms by (simp add: publish_def)
next
  case (Some p)
  then have eq: "snd (publish clientId message now s) = snd (publishSend p message now s)"
    by (simp add: publish_def)
  show ?thesis unfolding eq
    using publishSend_frame [of p message now s] publishSend_chans [of p message now s]
    by (intro wf_frame [OF assms]) simp_all
qed

lemma pollReceive_frame:
  "clientChannels (pollReceive p s) = clientChannels s
 \<and> clients (pollReceive p s) = clients s
 \<and> nclients (pollReceive p s) = nclients s
 \<and> nchans (pollReceive p s) = nchans s"
  by (simp add: pollReceive_def recvReady_def Let_def split: list.splits)

lemma pollReceive_chans:
  "qclosed (chans (pollReceive p s) a) = qclosed (chans s a)
 \<and> qsize (chans (pollReceive p s) a) = qsize (chans s a)
 \<and> length (qbuf (chans (pollReceive p s) a)) \<le> length (qbuf (chans s a))"
  by (simp add: pollReceive_def recvReady_def Let_def split: list.splits)

lemma wf_pollReceive:
  assumes "wf s"
  shows "wf (pollReceive p s)"
  using pollReceive_frame [of p s] pollReceive_chans [of p s]
  by (intro wf_frame [OF assms]) (simp_all add: max.coboundedI1)

lemma filter_idle_keys:
  assumes "distinct (map fst al)"
  shows "filter (\<lambda>e. fst e \<notin> fst ` {x \<in> set al. P x}) al = filter (\<lambda>e. \<not> P e) al"
proof (rule filter_cong [OF refl])
  fix e assume mem: "e \<in> set al"
  show "(fst e \<notin> fst ` {x \<in> set al. P x}) = (\<not> P e)"
  proof
    assume "fst e \<notin> fst ` {x \<in> set al. P x}"
    with mem show "\<not> P e" by force
  next
    assume np: "\<not> P e"
    show "fst e \<notin> fst ` {x \<in> set al. P x}"
    proof
      assume "fst e \<in> fst ` {x \<in> set al. P x}"
      then obtain x where x: "x \<in> set al" "P x" "fst x = fst e" by force
      from assms mem x(1,3) have "x = e"
        by (metis eq_key_imp_eq_value prod.collapse)
      with x(2) np show False by simp
    qed
  qed
qed

lemma visitOrder_self:
  assumes "wf s"
  shows "visitOrder (clientChannels s) s"
  using assms by (simp add: wf_def visitOrder_def)

lemma cleanUpSweep_result:
  assumes "wf s" and "visitOrder visit s"
  shows "\<exists>lg s'. cleanUpSweep clock visit s = Inr (lg, s')
       \<and> clients s' = clients s \<and> nclients s' = nclients s \<and> nchans s' = nchans s
       \<and> clientChannels s' = filter (\<lambda>e. \<not> idle clock s e) (clientChannels s)
       \<and> (\<forall>a. chans s' a =
              (if a \<in> (\<lambda>e. Channel (clients s (snd e))) ` {x \<in> set (clientChannels s). idle clock s x}
               then (chans s a)\<lparr>qclosed := True\<rparr> else chans s a))
       \<and> lg = reportLines (length (clientChannels s))
                 (map fst (filter (idle clock s) visit))"
proof -
  let ?f = "\<lambda>e. Channel (clients s (snd e))"
  from assms(2) have dv: "distinct (map fst visit)"
    and sv: "set visit = set (clientChannels s)"
    by (simp_all add: visitOrder_def)
  from assms(1) have d: "distinct (map fst (clientChannels s))"
    and dc: "distinct (map ?f (clientChannels s))"
    and op: "\<forall>e \<in> set (clientChannels s). \<not> qclosed (mailbox s (snd e))"
    by (simp_all add: wf_def)
  from dc have "inj_on ?f (set visit)" unfolding sv by (simp add: distinct_map)
  moreover from dv have "distinct visit" by (simp add: distinct_map)
  ultimately have dcv: "distinct (map ?f visit)" by (simp add: distinct_map)
  from op have opv: "\<forall>e \<in> set visit. \<not> qclosed (mailbox s (snd e))" unfolding sv .
  from sweepLoop_shape [OF dcv opv, of clock "[]"] obtain lg s' where
    r: "sweepLoop clock visit ([], s) = Inr (lg, s')"
    and c: "clients s' = clients s" "nclients s' = nclients s" "nchans s' = nchans s"
    and m: "clientChannels s' =
           filter (\<lambda>e. fst e \<notin> fst ` {x \<in> set (clientChannels s). idle clock s x}) (clientChannels s)"
    and h: "\<forall>a. chans s' a =
              (if a \<in> ?f ` {x \<in> set (clientChannels s). idle clock s x}
               then (chans s a)\<lparr>qclosed := True\<rparr> else chans s a)"
    unfolding sv by blast
  from sv have sub: "set visit \<subseteq> set (clientChannels s)" by simp
  from sweepLoop_log [OF r dv sub d]
  have l: "lg = reportLines (length (clientChannels s))
                 (map fst (filter (idle clock s) visit))" by simp
  from m have m': "clientChannels s' = filter (\<lambda>e. \<not> idle clock s e) (clientChannels s)"
    unfolding filter_idle_keys [OF d] .
  from r c m' h l show ?thesis unfolding cleanUpSweep_def by blast
qed


lemma wf_sweep:
  assumes "wf s" and "visitOrder visit s" and "cleanUpSweep clock visit s = Inr (lg, s')"
  shows "wf s'"
proof -
  let ?f = "\<lambda>e. Channel (clients s (snd e))"
  let ?I = "{x \<in> set (clientChannels s). idle clock s x}"
  from cleanUpSweep_result [OF assms(1,2), of clock] assms(3)
  have c: "clients s' = clients s" "nclients s' = nclients s" "nchans s' = nchans s"
    and m: "clientChannels s' = filter (\<lambda>e. \<not> idle clock s e) (clientChannels s)"
    and h: "\<forall>a. chans s' a = (if a \<in> ?f ` ?I then (chans s a)\<lparr>qclosed := True\<rparr> else chans s a)"
    by auto
  from assms(1) have d: "distinct (map fst (clientChannels s))"
    and dc: "distinct (map ?f (clientChannels s))"
    by (simp_all add: wf_def)
  have d1: "distinct (map fst (clientChannels s'))"
    unfolding m using d by (rule distinct_map_filter)
  have d2: "distinct (map (\<lambda>e. Channel (clients s' (snd e))) (clientChannels s'))"
    unfolding m c using dc by (rule distinct_map_filter)
  have d3: "\<forall>e \<in> set (clientChannels s').
         snd e < nclients s' \<and> Channel (clients s' (snd e)) < nchans s'
       \<and> \<not> qclosed (mailbox s' (snd e)) \<and> qsize (mailbox s' (snd e)) = 1
       \<and> length (qbuf (mailbox s' (snd e))) \<le> 1"
  proof
    fix e assume "e \<in> set (clientChannels s')"
    then have mem: "e \<in> set (clientChannels s)" and ni: "\<not> idle clock s e"
      unfolding m by simp_all
    have "?f e \<notin> ?f ` ?I"
    proof
      assume "?f e \<in> ?f ` ?I"
      then obtain x where x: "x \<in> set (clientChannels s)" "idle clock s x" "?f x = ?f e"
        by auto
      from dc have "inj_on ?f (set (clientChannels s))" by (simp add: distinct_map)
      with mem x(1,3) have "x = e" by (auto dest: inj_onD)
      with x(2) ni show False by simp
    qed
    then have "chans s' (?f e) = chans s (?f e)" using h by simp
    moreover from mem assms(1) have "snd e < nclients s" "?f e < nchans s"
      "\<not> qclosed (chans s (?f e))" "qsize (chans s (?f e)) = 1"
      "length (qbuf (chans s (?f e))) \<le> 1"
      by (simp_all add: wf_def)
    ultimately show "snd e < nclients s' \<and> Channel (clients s' (snd e)) < nchans s'
       \<and> \<not> qclosed (mailbox s' (snd e)) \<and> qsize (mailbox s' (snd e)) = 1
       \<and> length (qbuf (mailbox s' (snd e))) \<le> 1"
      by (simp add: c)
  qed
  from d1 d2 d3 show ?thesis unfolding wf_def by blast
qed

lemma wf_step:
  assumes "wf s"
  shows "\<exists>s'. step a s = Some s' \<and> wf s'"
proof (cases a)
  case (Subscribe c t)
  then show ?thesis using wf_subscribe [OF assms] by simp
next
  case (PollEnter c t)
  then show ?thesis using wf_pollEnter [OF assms] by simp
next
  case (PollReceive p)
  then show ?thesis using wf_pollReceive [OF assms] by simp
next
  case (Publish c m t)
  then show ?thesis using wf_publish [OF assms] by simp
next
  case (Sweep clock)
  note v = visitOrder_self [OF assms]
  from cleanUpSweep_result [OF assms v, of clock] obtain lg s' where
    r: "cleanUpSweep clock (clientChannels s) s = Inr (lg, s')" by blast
  with wf_sweep [OF assms v r] Sweep show ?thesis by simp
qed

lemma wf_run:
  assumes "wf s"
  shows "\<exists>s'. run as s = Some s' \<and> wf s'"
  using assms
proof (induction as arbitrary: s)
  case Nil
  then show ?case by simp
next
  case (Cons a as)
  from wf_step [OF Cons.prems, of a] obtain s1 where s1: "step a s = Some s1" "wf s1" by blast
  from Cons.IH [OF s1(2)] s1(1) show ?case by simp
qed


section \<open>The select of a poll\<close>

lemma poll_known:
  assumes "map_of (clientChannels s) clientId = Some p"
  shows "poll clientId entered timer now s =
           pollSelect p timer now
             (s\<lparr>clients := (clients s)(p := (clients s p)\<lparr>LastSeen := entered\<rparr>)\<rparr>)"
  using assms by (simp add: poll_def pollEnter_def)

lemma pollSelect_pending:
  assumes "qbuf (chans s (Channel (clients s p))) = e # es"
  shows "pollSelect p timer now s =
           (StatusOK_Event e,
            s\<lparr>chans := (chans s)(Channel (clients s p) :=
                  (chans s (Channel (clients s p)))\<lparr>qbuf := es\<rparr>)\<rparr>)
           # (if now - timer \<ge> pollTimeout then [(StatusNoContent, s)] else [])"
  using assms by (simp add: pollSelect_def recvReady_def Let_def)

lemma pollSelect_empty_open:
  assumes "qbuf (chans s (Channel (clients s p))) = []"
    and "\<not> qclosed (chans s (Channel (clients s p)))"
  shows "pollSelect p timer now s =
           (if now - timer \<ge> pollTimeout then [(StatusNoContent, s)] else [])"
  using assms by (simp add: pollSelect_def recvReady_def Let_def)


section \<open>The scenario states, written out\<close>

lemma oneClient_eq:
  "oneClient = \<lparr>chans = (\<lambda>_. make_chan 0)(0 := make_chan 1), nchans = 1,
       clients = (\<lambda>_. \<lparr>Channel = 0, LastSeen = 0\<rparr>)(0 := \<lparr>Channel = 0, LastSeen = 0\<rparr>),
       nclients = 1, clientChannels = [(''A'', 0)]\<rparr>"
  by (simp add: oneClient_def pollEnter_def register_def init_def Let_def)


lemma threeClients_eq:
  "threeClients = \<lparr>chans = (\<lambda>_. make_chan 0)(0 := make_chan 1, 1 := make_chan 1, 2 := make_chan 1),
       nchans = 3,
       clients = (\<lambda>_. \<lparr>Channel = 0, LastSeen = 0\<rparr>)
                   (0 := \<lparr>Channel = 0, LastSeen = 0\<rparr>,
                    1 := \<lparr>Channel = 1, LastSeen = 40 * second\<rparr>,
                    2 := \<lparr>Channel = 2, LastSeen = 50 * second\<rparr>),
       nclients = 3, clientChannels = [(''A'', 0), (''B'', 1), (''C'', 2)]\<rparr>"
  by (simp add: threeClients_def oneClient_eq pollEnter_def register_def Let_def numeral_2_eq_2)

lemma sweep_threeClients:
  "cleanUpSweep (constClock (61 * second)) (clientChannels threeClients) threeClients
     = Inr ([CleanedUp ''A'', ActiveRemaining 2], sweptThree)"
  by (simp add: cleanUpSweep_def threeClients_eq sweptThree_def constClock_def clientTimeout_def
      minute_def second_def closeChan_def make_chan_def Let_def)

lemma latePending_eq:
  "latePending = \<lparr>chans = (\<lambda>_. make_chan 0)(0 := \<lparr>qbuf = [\<lparr>Message = ''hi'', Time = 59 * second\<rparr>],
                                   qsize = 1, qclosed = False\<rparr>), nchans = 1,
       clients = (\<lambda>_. \<lparr>Channel = 0, LastSeen = 0\<rparr>)(0 := \<lparr>Channel = 0, LastSeen = 0\<rparr>),
       nclients = 1, clientChannels = [(''A'', 0)]\<rparr>"
  by (simp add: latePending_def oneClient_eq publish_def publishSend_def trySend_def make_chan_def Let_def)

lemma replaced_eq:
  "replaced = \<lparr>chans = (\<lambda>_. make_chan 0)(0 := make_chan 1, Suc 0 := make_chan 1), nchans = 2,
       clients = (\<lambda>_. \<lparr>Channel = 0, LastSeen = 0\<rparr>)
                   (0 := \<lparr>Channel = 0, LastSeen = 0\<rparr>,
                    Suc 0 := \<lparr>Channel = Suc 0, LastSeen = 1 * second\<rparr>),
       nclients = 2, clientChannels = [(''A'', Suc 0)]\<rparr>"
  by (simp add: replaced_def subscribeHandler_def oneClient_eq register_def Let_def numeral_2_eq_2)

section \<open>Entries of the map\<close>

lemma wf_entry:
  assumes "wf s" and "map_of (clientChannels s) clientId = Some p"
  shows "p < nclients s \<and> Channel (clients s p) < nchans s \<and> \<not> qclosed (mailbox s p)
       \<and> qsize (mailbox s p) = 1 \<and> length (qbuf (mailbox s p)) \<le> 1"
proof -
  from assms(2) have "(clientId, p) \<in> set (clientChannels s)" by (rule map_of_SomeD)
  with assms(1) show ?thesis unfolding wf_def by fastforce
qed

lemma sweepLoop_clients:
  "sweepLoop clock es (lg, s) = Inr (lg', s') \<Longrightarrow> clients s' = clients s"
proof (induction es arbitrary: lg s)
  case Nil
  then show ?case by simp
next
  case (Cons e es)
  obtain c p where e: "e = (c, p)" by (cases e)
  show ?case
  proof (cases "clock c - LastSeen (clients s p) > clientTimeout")
    case False
    with Cons.prems have "sweepLoop clock es (lg, s) = Inr (lg', s')" by (simp add: e)
    from Cons.IH [OF this] show ?thesis .
  next
    case True
    with Cons.prems obtain lg2 c' where
      "sweepLoop clock es (lg2, s\<lparr>clientChannels := AList.delete c (clientChannels s),
          chans := (chans s)(Channel (clients s p) := c')\<rparr>) = Inr (lg', s')"
      by (auto simp: e Let_def split: sum.splits)
    from Cons.IH [OF this] show ?thesis by simp
  qed
qed

lemma count_key:
  assumes "distinct (map fst al)" and "map_of al k = Some v"
  shows "length (filter (\<lambda>e. fst e = k) al) = 1"
  using assms
proof (induction al)
  case Nil
  then show ?case by simp
next
  case (Cons e al)
  show ?case
  proof (cases "fst e = k")
    case True
    from Cons.prems(1) have "fst e \<notin> fst ` set al" by simp
    with True have "\<forall>x \<in> set al. fst x \<noteq> k" by (auto simp: image_iff)
    then have "filter (\<lambda>e. fst e = k) al = []" by (simp add: filter_empty_conv)
    with True show ?thesis by simp
  next
    case False
    with Cons.prems have "distinct (map fst al)" "map_of al k = Some v"
      by (auto split: if_splits)
    with Cons.IH False show ?thesis by simp
  qed
qed

lemma pollEnter_registered:
  "map_of (clientChannels (snd (pollEnter clientId now s))) clientId
     = Some (fst (pollEnter clientId now s))"
  by (cases "map_of (clientChannels s) clientId")
     (simp_all add: pollEnter_def register_def Let_def update_conv')

section \<open>A mailbox the map no longer leads to\<close>

lemma register_orphan:
  assumes "wf s" and "ao < nchans s"
    and "\<forall>e \<in> set (clientChannels s). Channel (clients s (snd e)) \<noteq> ao"
  shows "chans (snd (register clientId now s)) ao = chans s ao
       \<and> ao < nchans (snd (register clientId now s))
       \<and> (\<forall>e \<in> set (clientChannels (snd (register clientId now s))).
             Channel (clients (snd (register clientId now s)) (snd e)) \<noteq> ao)"
proof -
  let ?s' = "snd (register clientId now s)"
  have a: "chans ?s' ao = chans s ao" "ao < nchans ?s'"
    using assms(2) by (simp_all add: register_def Let_def)
  have "\<forall>e \<in> set (clientChannels ?s'). Channel (clients ?s' (snd e)) \<noteq> ao"
  proof
    fix e assume "e \<in> set (clientChannels ?s')"
    then have "e \<in> set (AList.update clientId (nclients s) (clientChannels s))"
      by (simp add: register_def Let_def)
    with set_update_subset have "e = (clientId, nclients s) \<or> e \<in> set (clientChannels s)"
      by fastforce
    then show "Channel (clients ?s' (snd e)) \<noteq> ao"
    proof
      assume "e = (clientId, nclients s)"
      with assms(2) show ?thesis by (simp add: register_def Let_def)
    next
      assume mem: "e \<in> set (clientChannels s)"
      with assms(1) have "snd e < nclients s" by (simp add: wf_def)
      with mem assms(3) show ?thesis by (simp add: register_def Let_def)
    qed
  qed
  with a show ?thesis by simp
qed

lemma orphan_step:
  assumes "wf s" and "step a s = Some s'" and "ao < nchans s"
    and "\<forall>e \<in> set (clientChannels s). Channel (clients s (snd e)) \<noteq> ao"
    and "qbuf (chans s ao) = []" and "\<not> qclosed (chans s ao)"
  shows "chans s' ao = chans s ao \<and> ao < nchans s'
       \<and> (\<forall>e \<in> set (clientChannels s'). Channel (clients s' (snd e)) \<noteq> ao)"
proof (cases a)
  case (Subscribe c t)
  with assms(2) have "s' = snd (register c t s)" by (simp add: subscribeHandler_def)
  with register_orphan [OF assms(1,3,4)] show ?thesis by simp
next
  case (PollEnter c t)
  show ?thesis
  proof (cases "map_of (clientChannels s) c")
    case None
    with PollEnter assms(2) have "s' = snd (register c t s)" by (simp add: pollEnter_def)
    with register_orphan [OF assms(1,3,4)] show ?thesis by simp
  next
    case (Some q)
    with PollEnter assms(2)
    have "s' = s\<lparr>clients := (clients s)(q := (clients s q)\<lparr>LastSeen := t\<rparr>)\<rparr>"
      by (simp add: pollEnter_def)
    with assms(3,4) show ?thesis by auto
  qed
next
  case (PollReceive q)
  with assms(2) have s': "s' = pollReceive q s" by simp
  show ?thesis
  proof (cases "Channel (clients s q) = ao")
    case True
    with assms(5,6) have "pollReceive q s = s"
      by (simp add: pollReceive_def recvReady_def)
    with s' assms(3,4) show ?thesis by simp
  next
    case False
    then have "chans (pollReceive q s) ao = chans s ao"
      by (simp add: pollReceive_def recvReady_def Let_def split: list.splits)
    with s' assms(3,4) pollReceive_frame [of q s] show ?thesis by simp
  qed
next
  case (Publish c m t)
  with assms(2) have s': "s' = snd (publish c m t s)" by simp
  have "chans (snd (publish c m t s)) ao = chans s ao"
  proof (cases "map_of (clientChannels s) c")
    case None
    then show ?thesis by (simp add: publish_def)
  next
    case (Some q)
    then have "(c, q) \<in> set (clientChannels s)" by (rule map_of_SomeD)
    with assms(4) have "Channel (clients s q) \<noteq> ao" by fastforce
    with Some show ?thesis
      by (simp add: publish_def publishSend_def trySend_def Let_def)
  qed
  with s' assms(3,4) publish_frame [of c m t s] show ?thesis by simp
next
  case (Sweep clock)
  from cleanUpSweep_result [OF assms(1) visitOrder_self [OF assms(1)], of clock]
  obtain lg s2 where
    r: "cleanUpSweep clock (clientChannels s) s = Inr (lg, s2)"
    and c: "clients s2 = clients s" "nchans s2 = nchans s"
    and m: "clientChannels s2 = filter (\<lambda>e. \<not> idle clock s e) (clientChannels s)"
    and h: "\<forall>a. chans s2 a =
              (if a \<in> (\<lambda>e. Channel (clients s (snd e))) ` {x \<in> set (clientChannels s). idle clock s x}
               then (chans s a)\<lparr>qclosed := True\<rparr> else chans s a)"
    by blast
  from r Sweep assms(2) have s': "s' = s2" by simp
  from assms(4) have "ao \<notin> (\<lambda>e. Channel (clients s (snd e))) ` {x \<in> set (clientChannels s). idle clock s x}"
    by auto
  with h have "chans s2 ao = chans s ao" by simp
  with s' c m assms(3,4) show ?thesis by simp
qed

lemma orphan_run:
  assumes "wf s" and "run as s = Some s'" and "ao < nchans s"
    and "\<forall>e \<in> set (clientChannels s). Channel (clients s (snd e)) \<noteq> ao"
    and "qbuf (chans s ao) = []" and "\<not> qclosed (chans s ao)"
  shows "chans s' ao = chans s ao"
  using assms
proof (induction as arbitrary: s)
  case Nil
  then show ?case by simp
next
  case (Cons a as)
  from wf_step [OF Cons.prems(1), of a] obtain s1 where
    s1: "step a s = Some s1" "wf s1" by blast
  with Cons.prems(2) have r: "run as s1 = Some s'" by simp
  from orphan_step [OF Cons.prems(1) s1(1) Cons.prems(3,4,5,6)]
  have o: "chans s1 ao = chans s ao" "ao < nchans s1"
    "\<forall>e \<in> set (clientChannels s1). Channel (clients s1 (snd e)) \<noteq> ao"
    by simp_all
  from Cons.IH [OF s1(2) r o(2,3)] o(1) Cons.prems(5,6) show ?case by simp
qed

lemma sweepLoop_nclients:
  "sweepLoop clock es (lg, s) = Inr (lg', s') \<Longrightarrow> nclients s' = nclients s"
proof (induction es arbitrary: lg s)
  case Nil
  then show ?case by simp
next
  case (Cons e es)
  obtain c p where e: "e = (c, p)" by (cases e)
  show ?case
  proof (cases "clock c - LastSeen (clients s p) > clientTimeout")
    case False
    with Cons.prems have "sweepLoop clock es (lg, s) = Inr (lg', s')" by (simp add: e)
    from Cons.IH [OF this] show ?thesis .
  next
    case True
    with Cons.prems obtain lg2 c' where
      "sweepLoop clock es (lg2, s\<lparr>clientChannels := AList.delete c (clientChannels s),
          chans := (chans s)(Channel (clients s p) := c')\<rparr>) = Inr (lg', s')"
      by (auto simp: e Let_def split: sum.splits)
    from Cons.IH [OF this] show ?thesis by simp
  qed
qed

lemma step_keeps_Channel:
  assumes "step a s = Some s'" and "p < nclients s"
  shows "Channel (clients s' p) = Channel (clients s p) \<and> p < nclients s'"
proof (cases a)
  case (Subscribe c t)
  with assms show ?thesis by (auto simp add: subscribeHandler_def register_def Let_def)
next
  case (PollEnter c t)
  with assms show ?thesis
    by (cases "map_of (clientChannels s) c") (auto simp add: pollEnter_def register_def Let_def)
next
  case (PollReceive q)
  with assms pollReceive_frame [of q s] show ?thesis by simp
next
  case (Publish c m t)
  with assms publish_frame [of c m t s] show ?thesis by simp
next
  case (Sweep clock)
  with assms obtain lg where r: "cleanUpSweep clock (clientChannels s) s = Inr (lg, s')"
    by (auto split: sum.splits)
  then have "clients s' = clients s" unfolding cleanUpSweep_def by (rule sweepLoop_clients)
  moreover have "nclients s' = nclients s"
    using r unfolding cleanUpSweep_def by (rule sweepLoop_nclients)
  ultimately show ?thesis using assms(2) by simp
qed

lemma run_keeps_Channel:
  assumes "run as s = Some s'" and "p < nclients s"
  shows "Channel (clients s' p) = Channel (clients s p)"
  using assms
proof (induction as arbitrary: s)
  case Nil
  then show ?case by simp
next
  case (Cons a as)
  from Cons.prems(1) obtain s1 where s1: "step a s = Some s1" "run as s1 = Some s'"
    by (auto split: option.splits)
  from step_keeps_Channel [OF s1(1) Cons.prems(2)] Cons.IH [OF s1(2)] show ?case by simp
qed

section \<open>More on the select of a poll\<close>

lemma pollSelect_closed_empty:
  assumes "qbuf (mailbox s p) = []" and "qclosed (mailbox s p)"
  shows "pollSelect p timer now s =
           (StatusOK_Event zeroEvent, s)
           # (if now - timer \<ge> pollTimeout then [(StatusNoContent, s)] else [])"
  using assms by (simp add: pollSelect_def recvReady_def Let_def)

lemma poll_unknown:
  assumes "map_of (clientChannels s) clientId = None"
  shows "map fst (poll clientId entered timer now s) =
           (if now - timer \<ge> pollTimeout then [StatusNoContent] else [])"
proof -
  let ?s1 = "snd (register clientId entered s)"
  have p: "poll clientId entered timer now s = pollSelect (nclients s) timer now ?s1"
    using assms by (simp add: poll_def pollEnter_def register_def Let_def)
  have "qbuf (mailbox ?s1 (nclients s)) = []" "\<not> qclosed (mailbox ?s1 (nclients s))"
    by (simp_all add: register_def Let_def make_chan_def)
  from pollSelect_empty_open [OF this, of timer now] p show ?thesis by simp
qed

lemma pollSelect_receive_state:
  assumes "(r, s') \<in> set (pollSelect p timer now s)" and "r \<noteq> StatusNoContent"
  shows "s' = pollReceive p s"
  using assms
  by (cases "recvReady (mailbox s p)")
     (auto simp add: pollSelect_def pollReceive_def Let_def fun_upd_def split: if_splits)

text \<open>
  What the sweep leaves to a handler that waits on the mailbox of the client it removes:
  the closed, empty channel makes the receive case ready with the zero value.
\<close>

lemma evicted_poll_unblocked:
  assumes "wf s" and "map_of (clientChannels s) clientId = Some p"
    and "idle clock s (clientId, p)" and "qbuf (mailbox s p) = []"
    and "visitOrder visit s" and "cleanUpSweep clock visit s = Inr (lg, s')"
  shows "pollSelect p timer now s' =
           (StatusOK_Event zeroEvent, s')
           # (if now - timer \<ge> pollTimeout then [(StatusNoContent, s')] else [])"
proof -
  let ?f = "\<lambda>e. Channel (clients s (snd e))"
  from cleanUpSweep_result [OF assms(1,5), of clock] assms(6)
  have c: "clients s' = clients s"
    and h: "\<forall>a. chans s' a =
              (if a \<in> ?f ` {x \<in> set (clientChannels s). idle clock s x}
               then (chans s a)\<lparr>qclosed := True\<rparr> else chans s a)"
    by auto
  from assms(2) have "(clientId, p) \<in> set (clientChannels s)" by (rule map_of_SomeD)
  with assms(3) have "?f (clientId, p) \<in> ?f ` {x \<in> set (clientChannels s). idle clock s x}"
    by blast
  with h c assms(4) have "qbuf (mailbox s' p) = []" "qclosed (mailbox s' p)" by simp_all
  then show ?thesis by (rule pollSelect_closed_empty)
qed

text \<open>
  A publish that looked the client up before the sweep and sends after it: the send on
  the closed channel panics.
\<close>

lemma publish_after_eviction_panics:
  "map_of (clientChannels oneClient) ''A'' = Some 0
 \<and> publishSend 0 ''hi'' (62 * second) evictedWaiting = (Inl SendOnClosedChannel, evictedWaiting)"
  by (simp add: oneClient_eq evictedWaiting_def publishSend_def trySend_def make_chan_def)

section \<open>Publishing\<close>



text \<open>
  C3. Publishing to a client identifier that has no entry in the map answers 404
  (not found) and leaves the whole state as it was: no entry is created.
\<close>

theorem publish_unknown_client:
  assumes "map_of (clientChannels s) clientId = None"
  shows "publish clientId message now s = (Inr StatusNotFound, s)
       \<and> statusCode StatusNotFound = 404"
  using assms by (simp add: publish_def)

theorem publish_unknown_client_witness:
  "map_of (clientChannels init) ''ghost'' = None
 \<and> publish ''ghost'' ''hi'' 5 init = (Inr StatusNotFound, init)
 \<and> clientChannels init = []"
  using publish_unknown_client [of init "''ghost''" "''hi''" 5]
  by (simp add: init_def)

text \<open>
  C5. For a client that is in the map with an empty mailbox, a publish is accepted, and
  the poll that follows delivers an event with exactly the published message and with the
  instant read by the publish as its time, which is not before the call of the publish.
\<close>

theorem publish_then_poll:
  assumes "wf s"
    and "map_of (clientChannels s) clientId = Some p"
    and "qbuf (mailbox s p) = []"
    and "called \<le> now"
  shows "fst (publish clientId message now s) = Inr StatusOK_Published
       \<and> map fst (poll clientId entered timer now' (snd (publish clientId message now s))) =
           StatusOK_Event \<lparr>Message = message, Time = now\<rparr>
           # (if now' - timer \<ge> pollTimeout then [StatusNoContent] else [])
       \<and> called \<le> Time \<lparr>Message = message, Time = now\<rparr>"
proof -
  let ?a = "Channel (clients s p)"
  let ?ev = "\<lparr>Message = message, Time = now\<rparr>"
  let ?s1 = "s\<lparr>chans := (chans s)(?a := (chans s ?a)\<lparr>qbuf := [?ev]\<rparr>)\<rparr>"
  let ?s1' = "?s1\<lparr>clients := (clients ?s1)(p := (clients ?s1 p)\<lparr>LastSeen := entered\<rparr>)\<rparr>"
  from wf_entry [OF assms(1,2)] have "\<not> qclosed (mailbox s p)" "qsize (mailbox s p) = 1"
    by simp_all
  with assms(2,3) have accepted: "publish clientId message now s = (Inr StatusOK_Published, ?s1)"
    by (simp add: publish_def publishSend_def trySend_def Let_def)
  have known: "map_of (clientChannels ?s1) clientId = Some p"
    using assms(2) by simp
  have "qbuf (mailbox ?s1' p) = ?ev # []"
    by simp
  from pollSelect_pending [OF this, of timer now']
  have "map fst (pollSelect p timer now' ?s1') =
           StatusOK_Event ?ev
           # (if now' - timer \<ge> pollTimeout then [StatusNoContent] else [])"
    by simp
  with accepted poll_known [OF known] assms(4) show ?thesis
    by simp
qed

theorem publish_then_poll_witness:
  "wf oneClient
 \<and> map_of (clientChannels oneClient) ''A'' = Some 0
 \<and> qbuf (mailbox oneClient 0) = []
 \<and> 34 * second \<le> 35 * second
 \<and> fst (publish ''A'' ''first'' (35 * second) oneClient) = Inr StatusOK_Published
 \<and> map fst (poll ''A'' (36 * second) (36 * second) (37 * second)
              (snd (publish ''A'' ''first'' (35 * second) oneClient)))
      = [StatusOK_Event \<lparr>Message = ''first'', Time = 35 * second\<rparr>]"
proof -
  have h1: "wf oneClient" by (simp add: wf_def oneClient_eq make_chan_def)
  have h2: "map_of (clientChannels oneClient) ''A'' = Some 0" by (simp add: oneClient_eq)
  have h3: "qbuf (mailbox oneClient 0) = []" by (simp add: oneClient_eq make_chan_def)
  have h4: "34 * second \<le> 35 * second" by (simp add: second_def)
  show ?thesis
    using h1 h2 h3 h4
      publish_then_poll [OF h1 h2 h3 h4, of "''first''" "36 * second" "36 * second" "37 * second"]
    by (simp add: pollTimeout_def second_def)
qed

text \<open>
  C8. A publish never changes a \<^verbatim>\<open>LastSeen\<close>: it leaves every \<^verbatim>\<open>ClientState\<close> as it was,
  whether the event is accepted or rejected, and it always ends with a response (its send
  has a default branch, and in a state that satisfies the invariant it does not panic).
  Neither the sweep, in whatever order it visits the map, nor the receive of a waiting
  poll changes a \<^verbatim>\<open>ClientState\<close>: only
  the locked section of a poll writes \<^verbatim>\<open>LastSeen\<close>, and a subscribe makes a new
  \<^verbatim>\<open>ClientState\<close>.
\<close>

theorem publish_keeps_lastSeen:
  "clients (snd (publish clientId message now s)) = clients s
 \<and> clients (snd (publishHandler clientId body now s)) = clients s
 \<and> (wf s \<longrightarrow> fst (publish clientId message now s)
        \<in> {Inr StatusOK_Published, Inr StatusServiceUnavailable, Inr StatusNotFound})
 \<and> (cleanUpSweep clock visit s = Inr (lg, s') \<longrightarrow> clients s' = clients s)
 \<and> clients (pollReceive p s) = clients s"
proof -
  have a: "clients (snd (publish clientId message now s)) = clients s" for message
    using publish_frame by simp
  then have b: "clients (snd (publishHandler clientId body now s)) = clients s"
    by (simp add: publishHandler_def split: option.splits)
  have c: "fst (publish clientId message now s)
        \<in> {Inr StatusOK_Published, Inr StatusServiceUnavailable, Inr StatusNotFound}" if "wf s"
  proof (cases "map_of (clientChannels s) clientId")
    case None
    then show ?thesis by (simp add: publish_def)
  next
    case (Some q)
    from wf_entry [OF that Some] have "\<not> qclosed (mailbox s q)" by simp
    with Some show ?thesis
      by (simp add: publish_def publishSend_def trySend_def Let_def)
  qed
  have d: "clients s' = clients s" if "cleanUpSweep clock visit s = Inr (lg, s')"
    using that unfolding cleanUpSweep_def by (rule sweepLoop_clients)
  from a b c d pollReceive_frame [of p s] show ?thesis by blast
qed

theorem publish_keeps_lastSeen_witness:
  "wf threeClients
 \<and> cleanUpSweep (constClock (61 * second)) (clientChannels threeClients) threeClients
      = Inr ([CleanedUp ''A'', ActiveRemaining 2], sweptThree)
 \<and> clients sweptThree = clients threeClients
 \<and> fst (publish ''B'' ''hi'' (45 * second) threeClients) = Inr StatusOK_Published
 \<and> LastSeen (clients (snd (publish ''B'' ''hi'' (45 * second) threeClients)) 1) = 40 * second"
proof -
  have h1: "wf threeClients" by (simp add: wf_def threeClients_eq make_chan_def)
  have h2: "cleanUpSweep (constClock (61 * second)) (clientChannels threeClients) threeClients
      = Inr ([CleanedUp ''A'', ActiveRemaining 2], sweptThree)"
    by (simp add: cleanUpSweep_def threeClients_eq sweptThree_def constClock_def clientTimeout_def
      minute_def second_def closeChan_def make_chan_def Let_def)
  have h3: "fst (publish ''B'' ''hi'' (45 * second) threeClients) = Inr StatusOK_Published"
    by (simp add: publish_def publishSend_def trySend_def threeClients_eq make_chan_def Let_def)
  show ?thesis
    using h1 h2 h3
      publish_keeps_lastSeen [of "''B''" "''hi''" "45 * second" threeClients "Some ''hi''"
        "constClock (61 * second)" "clientChannels threeClients"
        "[CleanedUp ''A'', ActiveRemaining 2]" sweptThree 1]
    by (simp add: threeClients_eq)
qed

section \<open>Polling\<close>

text \<open>
  C4. The code at the input where it departs from the claim, by the same missing test
  as in C7: a handler polls for A at instant 0 on the empty map and holds the entry; the
  sweep at 61 s removes A and closes its mailbox, which is empty. At 62 s, 17 seconds
  after the handler started its timer, its \<^verbatim>\<open>select\<close> has one case ready: the receive, which
  answers 200 with the zero event and leaves the state as it is. The event answered was
  never in the mailbox and nothing is consumed, and the poll has neither delivered a
  deposited event nor waited its 30 seconds. (On a mailbox that is not closed the two
  outcomes are as claimed: \<open>pollSelect_pending\<close> and \<open>pollSelect_empty_open\<close>.)
\<close>

theorem poll_answers_event_never_sent:
  "fst (pollEnter ''A'' 0 init) = 0
 \<and> run [PollEnter ''A'' 0, Sweep (constClock (61 * second))] init = Some evictedWaiting
 \<and> qbuf (mailbox evictedWaiting 0) = []
 \<and> pollSelect 0 (45 * second) (62 * second) evictedWaiting
      = [(StatusOK_Event zeroEvent, evictedWaiting)]
 \<and> 62 * second - 45 * second < 30 * second"
  by (simp add: pollEnter_def register_def init_def cleanUpSweep_def constClock_def
      clientTimeout_def minute_def second_def closeChan_def make_chan_def Let_def
      evictedWaiting_def oneClient_def pollSelect_def recvReady_def pollTimeout_def)

text \<open>
  C2. The locked section of a poll is one transition. For a client that is in the map it
  sets \<^verbatim>\<open>LastSeen\<close> of the entry to now and returns that entry; for a client that is not, it
  inserts a new entry with an empty mailbox of capacity 1 and \<^verbatim>\<open>LastSeen\<close> = now and
  returns it. Afterwards the map has exactly one pair for the client, a second poll of
  the same client gets the same entry and adds no pair, and in every state that any
  sequence of transitions reaches the keys of the map are distinct.
\<close>

theorem poll_lookup_or_create:
  assumes "wf s"
  shows "(\<forall>p. map_of (clientChannels s) clientId = Some p \<longrightarrow>
            pollEnter clientId now s =
              (p, s\<lparr>clients := (clients s)(p := (clients s p)\<lparr>LastSeen := now\<rparr>)\<rparr>))
       \<and> (map_of (clientChannels s) clientId = None \<longrightarrow>
            fst (pollEnter clientId now s) = nclients s
          \<and> clients (snd (pollEnter clientId now s)) (nclients s)
              = \<lparr>Channel = nchans s, LastSeen = now\<rparr>
          \<and> mailbox (snd (pollEnter clientId now s)) (nclients s) = make_chan 1
          \<and> map_of (clientChannels (snd (pollEnter clientId now s)))
              = (map_of (clientChannels s))(clientId \<mapsto> nclients s))
       \<and> map_of (clientChannels (snd (pollEnter clientId now s))) clientId
            = Some (fst (pollEnter clientId now s))
       \<and> length (filter (\<lambda>e. fst e = clientId) (clientChannels (snd (pollEnter clientId now s)))) = 1
       \<and> fst (pollEnter clientId now' (snd (pollEnter clientId now s)))
            = fst (pollEnter clientId now s)
       \<and> clientChannels (snd (pollEnter clientId now' (snd (pollEnter clientId now s))))
            = clientChannels (snd (pollEnter clientId now s))
       \<and> (\<forall>as. \<exists>s'. run as s = Some s' \<and> distinct (map fst (clientChannels s')))"
proof -
  let ?r = "pollEnter clientId now s"
  have known: "\<forall>p. map_of (clientChannels s) clientId = Some p \<longrightarrow>
            ?r = (p, s\<lparr>clients := (clients s)(p := (clients s p)\<lparr>LastSeen := now\<rparr>)\<rparr>)"
    by (simp add: pollEnter_def)
  have fresh: "map_of (clientChannels s) clientId = None \<longrightarrow>
            fst ?r = nclients s
          \<and> clients (snd ?r) (nclients s) = \<lparr>Channel = nchans s, LastSeen = now\<rparr>
          \<and> mailbox (snd ?r) (nclients s) = make_chan 1
          \<and> map_of (clientChannels (snd ?r)) = (map_of (clientChannels s))(clientId \<mapsto> nclients s)"
    by (simp add: pollEnter_def register_def Let_def update_conv')
  have reg: "map_of (clientChannels (snd ?r)) clientId = Some (fst ?r)"
    by (rule pollEnter_registered)
  from wf_pollEnter [OF assms] have "distinct (map fst (clientChannels (snd ?r)))"
    by (simp add: wf_def)
  from count_key [OF this reg]
  have one: "length (filter (\<lambda>e. fst e = clientId) (clientChannels (snd ?r))) = 1" .
  have "pollEnter clientId now' (snd ?r) =
      (fst ?r, (snd ?r)\<lparr>clients := (clients (snd ?r))
                  (fst ?r := (clients (snd ?r) (fst ?r))\<lparr>LastSeen := now'\<rparr>)\<rparr>)"
    using reg by (simp add: pollEnter_def)
  then have again: "fst (pollEnter clientId now' (snd ?r)) = fst ?r"
    "clientChannels (snd (pollEnter clientId now' (snd ?r))) = clientChannels (snd ?r)"
    by simp_all
  have always: "\<forall>as. \<exists>s'. run as s = Some s' \<and> distinct (map fst (clientChannels s'))"
  proof
    fix as
    from wf_run [OF assms, of as] show "\<exists>s'. run as s = Some s' \<and> distinct (map fst (clientChannels s'))"
      by (auto simp: wf_def)
  qed
  from known fresh reg one again always show ?thesis by blast
qed

theorem poll_lookup_or_create_witness:
  "wf init
 \<and> map_of (clientChannels init) ''A'' = None
 \<and> fst (pollEnter ''A'' 0 init) = 0
 \<and> clientChannels (snd (pollEnter ''A'' 0 init)) = [(''A'', 0)]
 \<and> clients (snd (pollEnter ''A'' 0 init)) 0 = \<lparr>Channel = 0, LastSeen = 0\<rparr>
 \<and> map_of (clientChannels oneClient) ''A'' = Some 0
 \<and> pollEnter ''A'' (7 * second) oneClient
      = (0, oneClient\<lparr>clients := (clients oneClient)(0 := \<lparr>Channel = 0, LastSeen = 7 * second\<rparr>)\<rparr>)
 \<and> run [PollEnter ''A'' 0, PollEnter ''A'' (7 * second)] init
      = Some (oneClient\<lparr>clients := (clients oneClient)(0 := \<lparr>Channel = 0, LastSeen = 7 * second\<rparr>)\<rparr>)"
proof -
  have h0: "wf init" by (simp add: wf_def init_def)
  have h1: "wf oneClient" by (simp add: wf_def oneClient_eq make_chan_def)
  have h2: "map_of (clientChannels oneClient) ''A'' = Some 0" by (simp add: oneClient_eq)
  have h3: "map_of (clientChannels init) ''A'' = None" by (simp add: init_def)
  show ?thesis
    using h0 h1 h2 h3 poll_lookup_or_create [OF h0, of "''A''" 0 "7 * second"]
      poll_lookup_or_create [OF h1, of "''A''" "7 * second" 0]
    by (simp add: oneClient_eq pollEnter_def register_def init_def Let_def)
qed

section \<open>Eviction\<close>




text \<open>
  C7. The code at the input where it departs from the claim: a handler polls for A at
  instant 0 and holds the entry; the sweep at 61 s removes A and closes its mailbox. The
  handler is unblocked, but by the receive case: with its timer still running its only
  response is 200 with the zero event, and with the timer expired the \<^verbatim>\<open>select\<close> may
  pick either that response or the 204 of the timeout.
\<close>

theorem evicted_poll_gets_zero_event:
  "fst (pollEnter ''A'' 0 init) = 0
 \<and> run [PollEnter ''A'' 0, Sweep (constClock (61 * second))] init = Some evictedWaiting
 \<and> selectResponses 0 (45 * second) (62 * second) evictedWaiting = [StatusOK_Event zeroEvent]
 \<and> selectResponses 0 0 (62 * second) evictedWaiting = [StatusOK_Event zeroEvent, StatusNoContent]
 \<and> statusCode (StatusOK_Event zeroEvent) = 200"
  by (simp add: pollEnter_def register_def init_def cleanUpSweep_def constClock_def
      clientTimeout_def minute_def second_def closeChan_def make_chan_def Let_def
      evictedWaiting_def oneClient_def selectResponses_def pollSelect_def recvReady_def
      pollTimeout_def)

text \<open>
  C9 (amended). An event in the mailbox of a client is handed over once: a poll that holds
  the entry receives exactly this event, the receive leaves the mailbox empty, and a
  second \<^verbatim>\<open>select\<close> on that mailbox has only its timeout. A sweep, in whatever order it
  visits the map, does not touch the buffer:
  the event stays in the mailbox, closed or not, where a poll that already holds the
  entry still receives it, once. But when the sweep finds the client idle it removes the
  entry with the event in it, and a poll that starts afterwards gets a new empty mailbox
  and can only time out.
\<close>

theorem deposited_event_handoff:
  assumes "wf s" and "map_of (clientChannels s) clientId = Some p"
    and "qbuf (mailbox s p) = [event]"
  shows "selectResponses p timer now s =
           StatusOK_Event event # (if now - timer \<ge> pollTimeout then [StatusNoContent] else [])
       \<and> (\<forall>r s'. (r, s') \<in> set (pollSelect p timer now s) \<and> r \<noteq> StatusNoContent
              \<longrightarrow> s' = pollReceive p s)
       \<and> qbuf (mailbox (pollReceive p s) p) = []
       \<and> selectResponses p timer now (pollReceive p s) =
           (if now - timer \<ge> pollTimeout then [StatusNoContent] else [])
       \<and> (\<forall>visit lg s'. visitOrder visit s \<and> cleanUpSweep clock visit s = Inr (lg, s') \<longrightarrow>
             qbuf (mailbox s' p) = [event]
           \<and> selectResponses p timer now s' =
               StatusOK_Event event # (if now - timer \<ge> pollTimeout then [StatusNoContent] else [])
           \<and> qbuf (mailbox (pollReceive p s') p) = []
           \<and> (idle clock s (clientId, p) \<longrightarrow>
                 map_of (clientChannels s') clientId = None
               \<and> pollResponses clientId entered timer now s' =
                   (if now - timer \<ge> pollTimeout then [StatusNoContent] else [])))"
proof -
  from wf_entry [OF assms(1,2)] have op: "\<not> qclosed (mailbox s p)" by simp
  have pending: "qbuf (mailbox s p) = event # []" using assms(3) by simp
  have a: "selectResponses p timer now s =
           StatusOK_Event event # (if now - timer \<ge> pollTimeout then [StatusNoContent] else [])"
    unfolding selectResponses_def pollSelect_pending [OF pending] by simp
  have b: "\<forall>r s'. (r, s') \<in> set (pollSelect p timer now s) \<and> r \<noteq> StatusNoContent
              \<longrightarrow> s' = pollReceive p s"
    using pollSelect_receive_state by blast
  have rcv: "qbuf (mailbox (pollReceive p s) p) = []" "\<not> qclosed (mailbox (pollReceive p s) p)"
    using assms(3) op by (simp_all add: pollReceive_def recvReady_def Let_def)
  have d: "selectResponses p timer now (pollReceive p s) =
           (if now - timer \<ge> pollTimeout then [StatusNoContent] else [])"
    unfolding selectResponses_def pollSelect_empty_open [OF rcv] by simp
  have e: "qbuf (mailbox s' p) = [event]
           \<and> selectResponses p timer now s' =
               StatusOK_Event event # (if now - timer \<ge> pollTimeout then [StatusNoContent] else [])
           \<and> qbuf (mailbox (pollReceive p s') p) = []
           \<and> (idle clock s (clientId, p) \<longrightarrow>
                 map_of (clientChannels s') clientId = None
               \<and> pollResponses clientId entered timer now s' =
                   (if now - timer \<ge> pollTimeout then [StatusNoContent] else []))"
    if v: "visitOrder visit s" and r: "cleanUpSweep clock visit s = Inr (lg, s')"
    for visit lg s'
  proof -
    from cleanUpSweep_result [OF assms(1) v, of clock] r
    have c: "clients s' = clients s"
      and m: "clientChannels s' = filter (\<lambda>e. \<not> idle clock s e) (clientChannels s)"
      and h: "\<forall>a. chans s' a =
              (if a \<in> (\<lambda>e. Channel (clients s (snd e))) ` {x \<in> set (clientChannels s). idle clock s x}
               then (chans s a)\<lparr>qclosed := True\<rparr> else chans s a)"
      by auto
    from h have "qbuf (chans s' a) = qbuf (chans s a)" for a by simp
    with c assms(3) have e1: "qbuf (mailbox s' p) = event # []" by simp
    have e2: "selectResponses p timer now s' =
               StatusOK_Event event # (if now - timer \<ge> pollTimeout then [StatusNoContent] else [])"
      unfolding selectResponses_def pollSelect_pending [OF e1] by simp
    have e3: "qbuf (mailbox (pollReceive p s') p) = []"
      using e1 by (simp add: pollReceive_def recvReady_def Let_def)
    have e4: "map_of (clientChannels s') clientId = None
               \<and> pollResponses clientId entered timer now s' =
                   (if now - timer \<ge> pollTimeout then [StatusNoContent] else [])"
      if i: "idle clock s (clientId, p)"
    proof -
      from assms(1) have dk: "distinct (map fst (clientChannels s))" by (simp add: wf_def)
      have "clientId \<notin> fst ` set (clientChannels s')"
      proof
        assume "clientId \<in> fst ` set (clientChannels s')"
        then obtain q where q: "(clientId, q) \<in> set (clientChannels s)" "\<not> idle clock s (clientId, q)"
          unfolding m by auto
        from dk q(1) have "map_of (clientChannels s) clientId = Some q" by simp
        with assms(2) i q(2) show False by simp
      qed
      then have n: "map_of (clientChannels s') clientId = None"
        by (simp add: map_of_eq_None_iff)
      from poll_unknown [OF n] n show ?thesis by (simp add: pollResponses_def)
    qed
    from e1 e2 e3 e4 show ?thesis by simp
  qed
  from a b rcv(1) d e show ?thesis by blast
qed

theorem deposited_event_handoff_witness:
  "wf latePending
 \<and> map_of (clientChannels latePending) ''A'' = Some 0
 \<and> qbuf (mailbox latePending 0) = [\<lparr>Message = ''hi'', Time = 59 * second\<rparr>]
 \<and> (StatusOK_Event \<lparr>Message = ''hi'', Time = 59 * second\<rparr>, pollReceive 0 latePending)
      \<in> set (pollSelect 0 (60 * second) (60 * second) latePending)
 \<and> visitOrder (clientChannels latePending) latePending
 \<and> cleanUpSweep (constClock (61 * second)) (clientChannels latePending) latePending
      = Inr ([CleanedUp ''A'', ActiveRemaining 0], evictedPending)
 \<and> idle (constClock (61 * second)) latePending (''A'', 0)
 \<and> selectResponses 0 0 (61 * second) evictedPending
      = [StatusOK_Event \<lparr>Message = ''hi'', Time = 59 * second\<rparr>, StatusNoContent]
 \<and> pollResponses ''A'' (62 * second) (62 * second) (63 * second) evictedPending = []"
proof -
  have h1: "wf latePending" by (simp add: wf_def latePending_eq)
  have h2: "map_of (clientChannels latePending) ''A'' = Some 0" by (simp add: latePending_eq)
  have h3: "qbuf (mailbox latePending 0) = [\<lparr>Message = ''hi'', Time = 59 * second\<rparr>]"
    by (simp add: latePending_eq)
  have h4: "(StatusOK_Event \<lparr>Message = ''hi'', Time = 59 * second\<rparr>, pollReceive 0 latePending)
      \<in> set (pollSelect 0 (60 * second) (60 * second) latePending)"
    by (simp add: pollSelect_def pollReceive_def recvReady_def latePending_eq Let_def)
  have h5: "cleanUpSweep (constClock (61 * second)) (clientChannels latePending) latePending
      = Inr ([CleanedUp ''A'', ActiveRemaining 0], evictedPending)"
    by (simp add: cleanUpSweep_def constClock_def clientTimeout_def minute_def second_def
        closeChan_def Let_def evictedPending_def latePending_eq)
  have h6: "idle (constClock (61 * second)) latePending (''A'', 0)"
    by (simp add: idle_def constClock_def latePending_eq clientTimeout_def minute_def second_def)
  have t1: "61 * second - 0 \<ge> pollTimeout" by (simp add: pollTimeout_def second_def)
  have t2: "\<not> 63 * second - 62 * second \<ge> pollTimeout" by (simp add: pollTimeout_def second_def)
  have h7: "visitOrder (clientChannels latePending) latePending"
    by (simp add: visitOrder_def latePending_eq)
  have swept: "visitOrder (clientChannels latePending) latePending
      \<and> cleanUpSweep (constClock (61 * second)) (clientChannels latePending) latePending
          = Inr ([CleanedUp ''A'', ActiveRemaining 0], evictedPending)"
    using h5 h7 by simp
  from deposited_event_handoff [OF h1 h2 h3, of 0 "61 * second" "constClock (61 * second)"] swept
  have "selectResponses 0 0 (61 * second) evictedPending
      = StatusOK_Event \<lparr>Message = ''hi'', Time = 59 * second\<rparr>
        # (if 61 * second - 0 \<ge> pollTimeout then [StatusNoContent] else [])"
    by blast
  with t1 have c1: "selectResponses 0 0 (61 * second) evictedPending
      = [StatusOK_Event \<lparr>Message = ''hi'', Time = 59 * second\<rparr>, StatusNoContent]"
    by simp
  from deposited_event_handoff [OF h1 h2 h3, of "62 * second" "63 * second"
      "constClock (61 * second)" "62 * second"] swept h6
  have "pollResponses ''A'' (62 * second) (62 * second) (63 * second) evictedPending
      = (if 63 * second - 62 * second \<ge> pollTimeout then [StatusNoContent] else [])"
    by blast
  with t2 have c2: "pollResponses ''A'' (62 * second) (62 * second) (63 * second) evictedPending = []"
    by simp
  from h1 h2 h3 h4 h5 h6 h7 c1 c2 show ?thesis by simp
qed

text \<open>
  C9 as stated fails: the first poll of A has timed out, an event published at 59 s is
  accepted, the sweep at 61 s removes A, and the event stays in a mailbox no pair leads
  to; the next poll of A is blocked until its own timeout and answers 204.
\<close>

theorem evicted_event_lost_counterexample:
  "fst (publish ''A'' ''hi'' (59 * second) oneClient) = Inr StatusOK_Published
 \<and> run [Publish ''A'' ''hi'' (59 * second), Sweep (constClock (61 * second))] oneClient
      = Some evictedPending
 \<and> clientChannels evictedPending = []
 \<and> qbuf (chans evictedPending 0) = [\<lparr>Message = ''hi'', Time = 59 * second\<rparr>]
 \<and> pollResponses ''A'' (62 * second) (62 * second) (91 * second) evictedPending = []
 \<and> pollResponses ''A'' (62 * second) (62 * second) (92 * second) evictedPending
      = [StatusNoContent]"
  by (simp add: publish_def publishSend_def trySend_def oneClient_eq make_chan_def
      cleanUpSweep_def constClock_def clientTimeout_def minute_def second_def closeChan_def
      Let_def evictedPending_def latePending_eq pollResponses_def poll_def pollEnter_def
      register_def pollSelect_def recvReady_def pollTimeout_def)

section \<open>Subscribing again\<close>

text \<open>
  C10 (amended). For a client that is in the map, a subscribe puts a new entry in its
  place whatever the state of the old one: a new \<^verbatim>\<open>ClientState\<close> with \<^verbatim>\<open>LastSeen\<close> = now and a
  new, empty mailbox of capacity 1. The old \<^verbatim>\<open>ClientState\<close> and its mailbox stay as they
  were, and no pair of the map leads to the old mailbox any more: a poll that looks the
  client up afterwards finds the new mailbox and nothing of the old one, and no handler
  or sweep that starts after the subscribe changes the old mailbox, so a poll waiting on
  the empty old mailbox has its timeout as the only case it can take.
\<close>

theorem subscribe_replaces_entry:
  assumes "wf s" and "map_of (clientChannels s) clientId = Some old"
  shows "fst (subscribeHandler clientId now s) = StatusOK_Subscribed clientId
       \<and> map_of (clientChannels (snd (subscribeHandler clientId now s)))
            = (map_of (clientChannels s))(clientId \<mapsto> nclients s)
       \<and> nclients s \<noteq> old
       \<and> clients (snd (subscribeHandler clientId now s)) (nclients s)
            = \<lparr>Channel = nchans s, LastSeen = now\<rparr>
       \<and> mailbox (snd (subscribeHandler clientId now s)) (nclients s) = make_chan 1
       \<and> clients (snd (subscribeHandler clientId now s)) old = clients s old
       \<and> mailbox (snd (subscribeHandler clientId now s)) old = mailbox s old
       \<and> (\<forall>e \<in> set (clientChannels (snd (subscribeHandler clientId now s))).
             Channel (clients (snd (subscribeHandler clientId now s)) (snd e))
               \<noteq> Channel (clients s old))
       \<and> pollResponses clientId entered timer now' (snd (subscribeHandler clientId now s))
            = (if now' - timer \<ge> pollTimeout then [StatusNoContent] else [])
       \<and> (\<forall>as s''. qbuf (mailbox s old) = []
               \<and> run as (snd (subscribeHandler clientId now s)) = Some s''
             \<longrightarrow> mailbox s'' old = mailbox s old
               \<and> selectResponses old timer now' s''
                   = (if now' - timer \<ge> pollTimeout then [StatusNoContent] else []))"
proof -
  let ?s' = "snd (subscribeHandler clientId now s)"
  let ?new = "nclients s"
  let ?ao = "Channel (clients s old)"
  let ?f = "\<lambda>e. Channel (clients s (snd e))"
  from wf_entry [OF assms] have old: "old < nclients s" "?ao < nchans s"
    "\<not> qclosed (mailbox s old)" by simp_all
  have s': "?s' = snd (register clientId now s)" by (simp add: subscribeHandler_def)
  have wf': "wf ?s'" by (rule wf_subscribe [OF assms(1)])
  have r1: "fst (subscribeHandler clientId now s) = StatusOK_Subscribed clientId"
    by (simp add: subscribeHandler_def)
  have r2: "map_of (clientChannels ?s') = (map_of (clientChannels s))(clientId \<mapsto> ?new)"
    by (simp add: s' register_def Let_def update_conv')
  have r3: "?new \<noteq> old" using old(1) by simp
  have r4: "clients ?s' ?new = \<lparr>Channel = nchans s, LastSeen = now\<rparr>"
    "mailbox ?s' ?new = make_chan 1"
    by (simp_all add: s' register_def Let_def)
  have r5: "clients ?s' old = clients s old" "mailbox ?s' old = mailbox s old"
    using old by (simp_all add: s' register_def Let_def)
  have r6: "\<forall>e \<in> set (clientChannels ?s'). Channel (clients ?s' (snd e)) \<noteq> ?ao"
  proof
    fix e assume mem': "e \<in> set (clientChannels ?s')"
    from wf' have "distinct (map fst (clientChannels ?s'))" by (simp add: wf_def)
    with mem' have look: "map_of (clientChannels ?s') (fst e) = Some (snd e)" by simp
    show "Channel (clients ?s' (snd e)) \<noteq> ?ao"
    proof (cases "fst e = clientId")
      case True
      with look r2 have "snd e = ?new" by simp
      with r4(1) old(2) show ?thesis by simp
    next
      case False
      with look r2 have "map_of (clientChannels s) (fst e) = Some (snd e)" by simp
      then have mem: "(fst e, snd e) \<in> set (clientChannels s)" by (rule map_of_SomeD)
      from assms(2) have memo: "(clientId, old) \<in> set (clientChannels s)" by (rule map_of_SomeD)
      from assms(1) have "inj_on ?f (set (clientChannels s))" by (simp add: wf_def distinct_map)
      from inj_onD [OF this _ mem memo] False have "Channel (clients s (snd e)) \<noteq> ?ao"
        by auto
      moreover from mem assms(1) have "snd e < nclients s" by (fastforce simp: wf_def)
      ultimately show ?thesis by (simp add: s' register_def Let_def)
    qed
  qed
  have r7: "pollResponses clientId entered timer now' ?s'
            = (if now' - timer \<ge> pollTimeout then [StatusNoContent] else [])"
  proof -
    let ?s1 = "?s'\<lparr>clients := (clients ?s')(?new := (clients ?s' ?new)\<lparr>LastSeen := entered\<rparr>)\<rparr>"
    from r2 have k: "map_of (clientChannels ?s') clientId = Some ?new" by simp
    have "qbuf (mailbox ?s1 ?new) = []" "\<not> qclosed (mailbox ?s1 ?new)"
      using r4 by (simp_all add: make_chan_def)
    from pollSelect_empty_open [OF this, of timer now'] poll_known [OF k, of entered timer now']
    show ?thesis by (simp add: pollResponses_def)
  qed
  have r8: "mailbox s'' old = mailbox s old
               \<and> selectResponses old timer now' s''
                   = (if now' - timer \<ge> pollTimeout then [StatusNoContent] else [])"
    if e: "qbuf (mailbox s old) = []" and r: "run as ?s' = Some s''" for as s''
  proof -
    have a1: "?ao < nchans ?s'" using old(2) by (simp add: s' register_def Let_def)
    have a2: "qbuf (chans ?s' ?ao) = []" "\<not> qclosed (chans ?s' ?ao)"
      using e old(3) r5 by simp_all
    from orphan_run [OF wf' r a1 r6 a2] have "chans s'' ?ao = chans ?s' ?ao" .
    moreover have "old < nclients ?s'" using old(1) by (simp add: s' register_def Let_def)
    from run_keeps_Channel [OF r this] r5(1) have "Channel (clients s'' old) = ?ao" by simp
    ultimately have m: "mailbox s'' old = mailbox s old" using r5 by simp
    with e old(3) have "qbuf (mailbox s'' old) = []" "\<not> qclosed (mailbox s'' old)" by simp_all
    from pollSelect_empty_open [OF this, of timer now'] m show ?thesis
      by (simp add: selectResponses_def)
  qed
  from r1 r2 r3 r4 r5 r6 r7 r8 show ?thesis by blast
qed

theorem subscribe_replaces_entry_witness:
  "wf oneClient
 \<and> map_of (clientChannels oneClient) ''A'' = Some 0
 \<and> qbuf (mailbox oneClient 0) = []
 \<and> snd (subscribeHandler ''A'' (1 * second) oneClient) = replaced
 \<and> (''A'', 1) \<in> set (clientChannels replaced)
 \<and> run [Publish ''A'' ''new'' (2 * second)] replaced
      = Some (snd (publish ''A'' ''new'' (2 * second) replaced))
 \<and> fst (publish ''A'' ''new'' (2 * second) replaced) = Inr StatusOK_Published
 \<and> selectResponses 0 0 (3 * second) (snd (publish ''A'' ''new'' (2 * second) replaced)) = []
 \<and> selectResponses 0 0 (30 * second) (snd (publish ''A'' ''new'' (2 * second) replaced))
      = [StatusNoContent]"
proof -
  have h1: "wf oneClient" by (simp add: wf_def oneClient_eq make_chan_def)
  have h2: "map_of (clientChannels oneClient) ''A'' = Some 0" by (simp add: oneClient_eq)
  have h3: "qbuf (mailbox oneClient 0) = []" by (simp add: oneClient_eq make_chan_def)
  have h4: "snd (subscribeHandler ''A'' (1 * second) oneClient) = replaced"
    by (simp add: replaced_def)
  have h5: "(''A'', 1) \<in> set (clientChannels replaced)" by (simp add: replaced_eq)
  have h6: "run [Publish ''A'' ''new'' (2 * second)] replaced
      = Some (snd (publish ''A'' ''new'' (2 * second) replaced))" by simp
  have h7: "fst (publish ''A'' ''new'' (2 * second) replaced) = Inr StatusOK_Published"
    by (simp add: publish_def publishSend_def trySend_def replaced_eq make_chan_def Let_def)
  have t1: "\<not> 3 * second - 0 \<ge> pollTimeout" "30 * second - 0 \<ge> pollTimeout"
    by (simp_all add: pollTimeout_def second_def)
  let ?s2 = "snd (publish ''A'' ''new'' (2 * second) replaced)"
  have h6': "qbuf (mailbox oneClient 0) = []
      \<and> run [Publish ''A'' ''new'' (2 * second)] (snd (subscribeHandler ''A'' (1 * second) oneClient))
          = Some ?s2"
    using h3 h4 h6 by simp
  from subscribe_replaces_entry [OF h1 h2, of "1 * second" 0 0 "3 * second"] h6'
  have "selectResponses 0 0 (3 * second) ?s2
      = (if 3 * second - 0 \<ge> pollTimeout then [StatusNoContent] else [])"
    by blast
  with t1 have c1: "selectResponses 0 0 (3 * second) ?s2 = []" by simp
  from subscribe_replaces_entry [OF h1 h2, of "1 * second" 0 0 "30 * second"] h6'
  have "selectResponses 0 0 (30 * second) ?s2
      = (if 30 * second - 0 \<ge> pollTimeout then [StatusNoContent] else [])"
    by blast
  with t1 have c2: "selectResponses 0 0 (30 * second) ?s2 = [StatusNoContent]" by simp
  from h1 h2 h3 h4 h5 h6 h7 c1 c2 show ?thesis by simp
qed

text \<open>
  C10 as stated fails for a publish that is under way: it has looked A up before the
  subscribe and sends afterwards, into the old mailbox, and the poll waiting there
  receives the event at 3 s instead of waiting out its 30 seconds.
\<close>

theorem inflight_publish_counterexample:
  "map_of (clientChannels oneClient) ''A'' = Some 0
 \<and> map_of (clientChannels replaced) ''A'' = Some 1
 \<and> selectResponses 0 0 (3 * second) replaced = []
 \<and> fst (publishSend 0 ''late'' (2 * second) replaced) = Inr StatusOK_Published
 \<and> selectResponses 0 0 (3 * second) (snd (publishSend 0 ''late'' (2 * second) replaced))
      = [StatusOK_Event \<lparr>Message = ''late'', Time = 2 * second\<rparr>]"
  by (simp add: oneClient_eq replaced_eq publishSend_def trySend_def make_chan_def Let_def
      selectResponses_def pollSelect_def recvReady_def pollTimeout_def second_def)

end
